theory Spec2Isabelle
  imports Main "HOL-Library.Char_ord" "HOL-Library.List_Lexorder"
begin

section \<open>Python strings\<close>

text \<open>
  A Python \<open>str\<close> is modelled as a \<^typ>\<open>string\<close>; a \<^typ>\<open>char\<close> stands for the code
  point of the same number, so the model covers the texts of code points below 256.
  On these, \<open>\d\<close> of the \<open>re\<close> module is the ten ASCII digits and \<open>str.isspace\<close> is
  the twelve characters listed in \<open>isspace\<close>.
\<close>

definition newline :: char where
  "newline = CHR 0x0A"

definition isdigit :: "char \<Rightarrow> bool" where
  "isdigit c = (c \<in> set ''0123456789'')"

definition isspace :: "char \<Rightarrow> bool" where
  "isspace c = (c \<in> set [CHR 0x09, CHR 0x0A, CHR 0x0B, CHR 0x0C, CHR 0x0D, CHR 0x1C,
     CHR 0x1D, CHR 0x1E, CHR 0x1F, CHR 0x20, CHR 0x85, CHR 0xA0])"

text \<open>\<open>s.strip()\<close>: whitespace removed at both ends.\<close>

definition strip :: "string \<Rightarrow> string" where
  "strip s = rev (dropWhile isspace (rev (dropWhile isspace s)))"

text \<open>\<open>s.startswith(p)\<close> and \<open>s.endswith(p)\<close>.\<close>

definition startswith :: "string \<Rightarrow> string \<Rightarrow> bool" where
  "startswith s p = (take (length p) s = p)"

definition endswith :: "string \<Rightarrow> string \<Rightarrow> bool" where
  "endswith s p = (length p \<le> length s \<and> drop (length s - length p) s = p)"

text \<open>\<open>s.split('.')[0]\<close>: the text before the first dot, all of \<open>s\<close> when it has none.\<close>

definition split_dot_first :: "string \<Rightarrow> string" where
  "split_dot_first s = takeWhile (\<lambda>c. c \<noteq> CHR ''.'') s"

text \<open>\<open>str(n)\<close> of an integer: decimal digits, a minus sign when negative.\<close>

fun str_nat :: "nat \<Rightarrow> string" where
  "str_nat n = (if n < 10 then [''0123456789'' ! n]
                else str_nat (n div 10) @ [''0123456789'' ! (n mod 10)])"

declare str_nat.simps [simp del]

definition str_int :: "int \<Rightarrow> string" where
  "str_int i = (if i < 0 then CHR ''-'' # str_nat (nat (- i)) else str_nat (nat i))"

section \<open>Base names\<close>

text \<open>
  Both \<open>_get_base_name\<close> methods match the file name against
  \<^verbatim>\<open>^(.*)\.\d{4}-\d{2}-\d{2}_\d{6}\.bak$\<close> with \<open>re.match\<close>. The part of the pattern
  after the group is a fixed sequence of literal characters and digits.
\<close>

datatype atom = Lit char | Digit

fun atom_ok :: "atom \<Rightarrow> char \<Rightarrow> bool" where
  "atom_ok (Lit l) c = (c = l)"
| "atom_ok Digit c = isdigit c"

text \<open>Matching a sequence of atoms at the head of a text; the result is the text left over.\<close>

fun match_atoms :: "atom list \<Rightarrow> string \<Rightarrow> string option" where
  "match_atoms [] s = Some s"
| "match_atoms (a # as) [] = None"
| "match_atoms (a # as) (c # s) = (if atom_ok a c then match_atoms as s else None)"

definition stamp_atoms :: "atom list" where
  "stamp_atoms = Lit (CHR ''.'') # replicate 4 Digit @ Lit (CHR ''-'') # replicate 2 Digit
     @ Lit (CHR ''-'') # replicate 2 Digit @ Lit (CHR ''_'') # replicate 6 Digit
     @ map Lit ''.bak''"

text \<open>
  \<open>$\<close> without the MULTILINE flag matches at the end of the text and just before
  a line feed that ends the text.
\<close>

definition at_dollar :: "string \<Rightarrow> bool" where
  "at_dollar s = (s = [] \<or> s = [newline])"

definition tail_matches :: "string \<Rightarrow> bool" where
  "tail_matches s = (case match_atoms stamp_atoms s of None \<Rightarrow> False | Some r \<Rightarrow> at_dollar r)"

text \<open>
  \<open>re.match(pattern, filename)\<close>, giving \<open>match.group(1)\<close>. The greedy \<open>(.*)\<close> first
  takes every character up to the first line feed (which \<open>.\<close> does not match) and then
  gives characters back one at a time until the rest of the pattern matches.
\<close>

definition re_match_group1 :: "string \<Rightarrow> string option" where
  "re_match_group1 filename =
     (let n = length (takeWhile (\<lambda>c. c \<noteq> newline) filename)
      in map_option (\<lambda>k. take k filename)
           (find (\<lambda>k. tail_matches (drop k filename)) (rev [0..<Suc n])))"

text \<open>\<open>DocumentVersionExplorer._get_base_name\<close>.\<close>

definition dve_get_base_name :: "string \<Rightarrow> string" where
  "dve_get_base_name filename =
     (case re_match_group1 filename of
        Some g \<Rightarrow> g
      | None \<Rightarrow> split_dot_first filename)"

text \<open>
  \<open>BackupViewer._get_base_name\<close> (SnapVersion+Plus.py). After the match it runs
  \<open>while '.' in base: base = base.split('.')[0]\<close>.
\<close>

function strip_extensions :: "string \<Rightarrow> string" where
  "strip_extensions base =
     (if CHR ''.'' \<in> set base then strip_extensions (split_dot_first base) else base)"
  by pat_completeness auto
termination
proof (relation "measure length")
  show "wf (measure length)" by simp
next
  fix base :: string
  assume "CHR ''.'' \<in> set base"
  then have "length (takeWhile (\<lambda>c. c \<noteq> CHR ''.'') base) < length base"
    by (induction base) auto
  then show "(split_dot_first base, base) \<in> measure length"
    by (simp add: split_dot_first_def)
qed

declare strip_extensions.simps [simp del]

definition bv_get_base_name :: "string \<Rightarrow> string" where
  "bv_get_base_name filename =
     strip_extensions
       (case re_match_group1 filename of
          Some g \<Rightarrow> g
        | None \<Rightarrow> split_dot_first filename)"

text \<open>
  A file name of the backup convention: a stem followed by
  \<open>.<YYYY>-<MM>-<DD>_<HHMMSS>.bak\<close>.
\<close>

definition digits :: "nat \<Rightarrow> string \<Rightarrow> bool" where
  "digits n s = (length s = n \<and> list_all isdigit s)"

definition stamp_suffix :: "string \<Rightarrow> string \<Rightarrow> string \<Rightarrow> string \<Rightarrow> string" where
  "stamp_suffix y m d t = ''.'' @ y @ ''-'' @ m @ ''-'' @ d @ ''_'' @ t @ ''.bak''"

section \<open>Files, streams and directories\<close>

text \<open>
  The exceptions that the modelled calls raise. \<open>FileNotFoundError\<close> and
  \<open>PermissionError\<close> are subclasses of \<open>OSError\<close>; the other two are not.
\<close>

datatype exn = FileNotFoundError | PermissionError | UnicodeDecodeError | OverflowError

definition is_OSError :: "exn \<Rightarrow> bool" where
  "is_OSError e = (e = FileNotFoundError \<or> e = PermissionError)"

text \<open>
  The file system as the two programs see it. \<open>texts\<close> gives the text behind every name
  that \<open>open\<close> accepts: the path of a file, or the path of a file followed by \<open>:source\<close>
  or \<open>:meta_audit\<close> for its alternate data streams. Texts are handled decoded: what is
  written is what is read back, with the line feed as the only line terminator; the
  encodings \<open>utf-8\<close> and \<open>utf-8-sig\<close> are not told apart. \<open>read_errors\<close> and
  \<open>write_errors\<close> name the exception, if any, with which opening a name for reading or
  for writing fails. \<open>ctimes\<close> is the outcome of
  \<open>datetime.fromtimestamp(os.path.getctime(path))\<close> followed by \<open>strftime\<close> and
  \<open>lower\<close>: the time stamp with its rendering, or the exception raised.
\<close>

record world =
  isdir :: "string \<Rightarrow> bool"
  dirs :: "string \<Rightarrow> exn + string list"
  ctimes :: "string \<Rightarrow> exn + int \<times> string"
  texts :: "string \<Rightarrow> string option"
  read_errors :: "string \<Rightarrow> exn option"
  write_errors :: "string \<Rightarrow> exn option"

definition path_exists :: "world \<Rightarrow> string \<Rightarrow> bool" where
  "path_exists w p = (isdir w p \<or> texts w p \<noteq> None)"

text \<open>\<open>with open(p, 'r', encoding=...) as f: f.read()\<close>.\<close>

definition open_read :: "world \<Rightarrow> string \<Rightarrow> exn + string" where
  "open_read w p =
     (case read_errors w p of
        Some e \<Rightarrow> Inl e
      | None \<Rightarrow> (case texts w p of None \<Rightarrow> Inl FileNotFoundError | Some t \<Rightarrow> Inr t))"

text \<open>\<open>with open(p, 'w', encoding=...) as f: f.write(t)\<close>.\<close>

definition open_write :: "world \<Rightarrow> string \<Rightarrow> string \<Rightarrow> exn + world" where
  "open_write w p t =
     (case write_errors w p of
        Some e \<Rightarrow> Inl e
      | None \<Rightarrow> Inr (w\<lparr>texts := (texts w)(p \<mapsto> t)\<rparr>))"

text \<open>\<open>with open(p, 'a', encoding=...) as f: f.write(t)\<close>.\<close>

definition open_append :: "world \<Rightarrow> string \<Rightarrow> string \<Rightarrow> exn + world" where
  "open_append w p t =
     (case write_errors w p of
        Some e \<Rightarrow> Inl e
      | None \<Rightarrow> Inr (w\<lparr>texts := (texts w)(p \<mapsto> (case texts w p of None \<Rightarrow> [] | Some c \<Rightarrow> c) @ t)\<rparr>))"

text \<open>\<open>f.readlines()\<close>: the lines of a text, each with its line feed.\<close>

fun readlines :: "string \<Rightarrow> string list" where
  "readlines [] = []"
| "readlines (c # cs) =
     (if c = newline then [c] # readlines cs
      else (case readlines cs of [] \<Rightarrow> [[c]] | l # ls \<Rightarrow> (c # l) # ls))"

text \<open>
  \<open>os.path.join(directory, name)\<close> of \<open>ntpath\<close> for a plain file name, and
  \<open>os.path.basename\<close> for a path whose drive is followed by a separator.
\<close>

definition path_join :: "string \<Rightarrow> string \<Rightarrow> string" where
  "path_join d n =
     (if d = [] \<or> last d \<in> set [CHR 0x5C, CHR ''/'', CHR '':''] then d @ n
      else d @ [CHR 0x5C] @ n)"

definition basename :: "string \<Rightarrow> string" where
  "basename p = rev (takeWhile (\<lambda>c. c \<noteq> CHR 0x5C \<and> c \<noteq> CHR ''/'') (rev p))"

section \<open>The sidecar streams\<close>

text \<open>\<open>[line.strip() for line in lines if line.strip()]\<close>.\<close>

definition audit_lines :: "string \<Rightarrow> string list" where
  "audit_lines text = map strip (filter (\<lambda>line. strip line \<noteq> []) (readlines text))"

definition max_retries :: nat where
  "max_retries = 3"

text \<open>
  \<open>BackupViewer.read_ads_metadata\<close> and \<open>DocumentVersionExplorer.read_ads_metadata\<close>.
  The result is \<open>Inr\<close> of the returned text; \<open>Inl\<close> would be an exception leaving the
  method.
\<close>

definition bv_read_ads_metadata :: "world \<Rightarrow> string \<Rightarrow> exn + string" where
  "bv_read_ads_metadata w file_path =
     (case open_read w (file_path @ '':source'') of
        Inr t \<Rightarrow> Inr (strip t)
      | Inl e \<Rightarrow> Inr [])"

definition dve_read_ads_metadata :: "world \<Rightarrow> string \<Rightarrow> exn + string" where
  "dve_read_ads_metadata w file_path =
     (let ads_path = file_path @ '':source''
      in if \<not> path_exists w ads_path then Inr []
         else (case open_read w ads_path of
                 Inr t \<Rightarrow> Inr (strip t)
               | Inl e \<Rightarrow> (if e = FileNotFoundError then Inr [] else Inr [])))"

text \<open>
  \<open>BackupViewer.read_meta_audit\<close>: the loop \<open>while retry_count < max_retries\<close>. After
  the last failed attempt the stream is read once more through a temporary copy.
\<close>

function bv_read_meta_audit_from :: "world \<Rightarrow> string \<Rightarrow> nat \<Rightarrow> string list" where
  "bv_read_meta_audit_from w file_path retry_count =
     (if retry_count < max_retries then
        (case open_read w (file_path @ '':meta_audit'') of
           Inr t \<Rightarrow> audit_lines t
         | Inl e \<Rightarrow>
             (if retry_count + 1 = max_retries then
                (case open_read w (file_path @ '':meta_audit'') of
                   Inr t \<Rightarrow> audit_lines t
                 | Inl e2 \<Rightarrow> [])
              else bv_read_meta_audit_from w file_path (retry_count + 1)))
      else [])"
  by pat_completeness auto
termination
  by (relation "measure (\<lambda>(w, file_path, retry_count). max_retries - retry_count)") auto

declare bv_read_meta_audit_from.simps [simp del]

definition bv_read_meta_audit :: "world \<Rightarrow> string \<Rightarrow> string list" where
  "bv_read_meta_audit w file_path = bv_read_meta_audit_from w file_path 0"

text \<open>\<open>f.writelines(f"{entry}\n" for entry in new_entries)\<close>.\<close>

definition entry_lines :: "string list \<Rightarrow> string" where
  "entry_lines new_entries = concat (map (\<lambda>entry. entry @ [newline]) new_entries)"

text \<open>
  \<open>BackupViewer.append_meta_audit\<close>. The list \<open>new_entries\<close> keeps the entries as they
  were passed in; only the test against the existing entries strips them. After the last
  failed attempt the entries go to a temporary file and from there to the stream, which
  is opened for appending once more.
\<close>

function bv_append_loop :: "world \<Rightarrow> string \<Rightarrow> string list \<Rightarrow> nat \<Rightarrow> world" where
  "bv_append_loop w file_path new_entries retry_count =
     (if retry_count < max_retries then
        (case open_append w (file_path @ '':meta_audit'') (entry_lines new_entries) of
           Inr w' \<Rightarrow> w'
         | Inl e \<Rightarrow>
             (if retry_count + 1 = max_retries then
                (case open_append w (file_path @ '':meta_audit'') (entry_lines new_entries) of
                   Inr w' \<Rightarrow> w'
                 | Inl e2 \<Rightarrow> w)
              else bv_append_loop w file_path new_entries (retry_count + 1)))
      else w)"
  by pat_completeness auto
termination
  by (relation "measure (\<lambda>(w, file_path, new_entries, retry_count). max_retries - retry_count)")
    auto

declare bv_append_loop.simps [simp del]

definition bv_append_meta_audit :: "world \<Rightarrow> string \<Rightarrow> string list \<Rightarrow> world" where
  "bv_append_meta_audit w file_path entries =
     (if entries = [] then w
      else
        let existing_entries = set (bv_read_meta_audit w file_path);
            new_entries = filter (\<lambda>entry. strip entry \<noteq> [] \<and> strip entry \<notin> existing_entries) entries
        in if new_entries = [] then w
           else bv_append_loop w file_path new_entries 0)"

text \<open>
  \<open>DocumentVersionExplorer.read_meta_audit\<close> and \<open>append_meta_audit\<close>: the loops
  \<open>for attempt in range(1, max_retries + 1)\<close>.
\<close>

function dve_read_meta_audit_from :: "world \<Rightarrow> string \<Rightarrow> nat \<Rightarrow> string list" where
  "dve_read_meta_audit_from w file_path attempt =
     (if attempt \<le> max_retries then
        (let ads_path = file_path @ '':meta_audit''
         in if \<not> path_exists w ads_path then []
            else (case open_read w ads_path of
                    Inr t \<Rightarrow> audit_lines t
                  | Inl e \<Rightarrow>
                      (if e = FileNotFoundError then []
                       else if attempt = max_retries then []
                       else dve_read_meta_audit_from w file_path (attempt + 1))))
      else [])"
  by pat_completeness auto
termination
  by (relation "measure (\<lambda>(w, file_path, attempt). Suc max_retries - attempt)") auto

declare dve_read_meta_audit_from.simps [simp del]

definition dve_read_meta_audit :: "world \<Rightarrow> string \<Rightarrow> string list" where
  "dve_read_meta_audit w file_path = dve_read_meta_audit_from w file_path 1"

function dve_append_loop :: "world \<Rightarrow> string \<Rightarrow> string list \<Rightarrow> nat \<Rightarrow> world" where
  "dve_append_loop w file_path new_unique_entries attempt =
     (if attempt \<le> max_retries then
        (if \<not> path_exists w file_path then w
         else (case open_append w (file_path @ '':meta_audit'') (entry_lines new_unique_entries) of
                 Inr w' \<Rightarrow> w'
               | Inl e \<Rightarrow>
                   (if attempt = max_retries then w
                    else dve_append_loop w file_path new_unique_entries (attempt + 1))))
      else w)"
  by pat_completeness auto
termination
  by (relation "measure (\<lambda>(w, file_path, new_unique_entries, attempt). Suc max_retries - attempt)")
    auto

declare dve_append_loop.simps [simp del]

definition dve_append_meta_audit :: "world \<Rightarrow> string \<Rightarrow> string list \<Rightarrow> world" where
  "dve_append_meta_audit w file_path entries_to_append =
     (if entries_to_append = [] then w
      else
        let existing_entries_set = set (dve_read_meta_audit w file_path);
            new_unique_entries =
              filter (\<lambda>entry. strip entry \<noteq> [] \<and> strip entry \<notin> existing_entries_set) entries_to_append
        in if new_unique_entries = [] then w
           else dve_append_loop w file_path new_unique_entries 1)"

text \<open>
  \<open>MetaTagEditor.save_meta\<close>, the same in both files. \<open>text\<close> is the content of the
  edit field and \<open>now\<close> the rendering of the current time.
\<close>

definition save_meta :: "world \<Rightarrow> string \<Rightarrow> string \<Rightarrow> string \<Rightarrow> world" where
  "save_meta w file_path text now =
     (let content = strip text
      in case open_write w (file_path @ '':source'') content of
           Inl e \<Rightarrow> w
         | Inr w1 \<Rightarrow>
             (let history_entry = ''['' @ now @ ''] '' @ content @ [newline]
              in case open_append w1 (file_path @ '':meta_audit'') history_entry of
                   Inl e \<Rightarrow> w1
                 | Inr w2 \<Rightarrow> w2))"

section \<open>Unified diffs\<close>

text \<open>
  \<open>difflib.unified_diff(a, b, lineterm='')\<close> of the Python standard library. It asks
  \<open>SequenceMatcher(None, a, b).get_grouped_opcodes(3)\<close> for the hunks, each a non-empty
  list of opcodes \<open>(tag, i1, i2, j1, j2)\<close>, and renders them. The matcher is a parameter
  of the model; a hunk is given by its first opcode and the list of the others. Every
  rendered line is kept with the kind of line it is.
\<close>

datatype tag = Replace | Delete | Insert | Equal

type_synonym opcode = "tag \<times> nat \<times> nat \<times> nat \<times> nat"

type_synonym hunk = "opcode \<times> opcode list"

type_synonym matcher = "string list \<Rightarrow> string list \<Rightarrow> hunk list"

datatype kind = Header | Range | Context | Removal | Addition

text \<open>The slice \<open>a[i1:i2]\<close> for indices that are not negative.\<close>

definition slice :: "'a list \<Rightarrow> nat \<Rightarrow> nat \<Rightarrow> 'a list" where
  "slice a i1 i2 = take (i2 - i1) (drop i1 a)"

definition format_range_unified :: "nat \<Rightarrow> nat \<Rightarrow> string" where
  "format_range_unified start stop =
     (let beginning = int start + 1;
          len = int stop - int start
      in if len = 1 then str_int beginning
         else str_int (if len = 0 then beginning - 1 else beginning) @ '','' @ str_int len)"

fun opcode_lines :: "string list \<Rightarrow> string list \<Rightarrow> opcode \<Rightarrow> (kind \<times> string) list" where
  "opcode_lines a b (tg, i1, i2, j1, j2) =
     (if tg = Equal then map (\<lambda>line. (Context, CHR '' '' # line)) (slice a i1 i2)
      else
        (if tg = Replace \<or> tg = Delete
         then map (\<lambda>line. (Removal, CHR ''-'' # line)) (slice a i1 i2) else [])
        @ (if tg = Replace \<or> tg = Insert
           then map (\<lambda>line. (Addition, CHR ''+'' # line)) (slice b j1 j2) else []))"

fun hunk_lines :: "string list \<Rightarrow> string list \<Rightarrow> hunk \<Rightarrow> (kind \<times> string) list" where
  "hunk_lines a b (first, others) =
     (case (first, last (first # others)) of
        ((t1, f1, f2, f3, f4), (t2, l1, l2, l3, l4)) \<Rightarrow>
          (Range, ''@@ -'' @ format_range_unified f1 l2 @ '' +'' @ format_range_unified f3 l4 @ '' @@'')
          # concat (map (opcode_lines a b) (first # others)))"

definition unified_diff_kinds :: "matcher \<Rightarrow> string list \<Rightarrow> string list \<Rightarrow> (kind \<times> string) list" where
  "unified_diff_kinds get_grouped_opcodes a b =
     (case get_grouped_opcodes a b of
        [] \<Rightarrow> []
      | g # gs \<Rightarrow> (Header, ''--- '') # (Header, ''+++ '') # concat (map (hunk_lines a b) (g # gs)))"

definition unified_diff :: "matcher \<Rightarrow> string list \<Rightarrow> string list \<Rightarrow> string list" where
  "unified_diff get_grouped_opcodes a b = map snd (unified_diff_kinds get_grouped_opcodes a b)"

text \<open>
  The number of lines of the diff that stand for an addition or a removal: the lines the
  renderer emits for the old lines of a \<open>replace\<close> or \<open>delete\<close> opcode and for the new
  lines of a \<open>replace\<close> or \<open>insert\<close> opcode.
\<close>

definition changed_lines :: "matcher \<Rightarrow> string list \<Rightarrow> string list \<Rightarrow> nat" where
  "changed_lines get_grouped_opcodes a b =
     length (filter (\<lambda>(k, line). k = Removal \<or> k = Addition) (unified_diff_kinds get_grouped_opcodes a b))"

section \<open>Resolving the backups of a base name\<close>

text \<open>
  An element of \<open>entries\<close>: \<open>(timestamp, dt_str, base, name, path)\<close>. The sixth component
  that \<open>DocumentVersionExplorer\<close> adds is the first one again, as a float.
\<close>

record entry =
  e_timestamp :: int
  e_dt :: string
  e_base :: string
  e_name :: string
  e_path :: string

text \<open>
  \<open>[f for f in os.listdir(directory) if f.startswith(base) and f.endswith('.bak')]\<close>.
\<close>

definition list_backups :: "world \<Rightarrow> string \<Rightarrow> string \<Rightarrow> exn + string list" where
  "list_backups w directory base =
     (case dirs w directory of
        Inl e \<Rightarrow> Inl e
      | Inr fs \<Rightarrow> Inr (filter (\<lambda>f. startswith f base \<and> endswith f ''.bak'') fs))"

text \<open>
  The loop \<open>for name in backups\<close>. Its handler is \<open>except OSError\<close>: a file whose
  creation time cannot be read is passed over; any other exception leaves the loop.
\<close>

fun scan_entries :: "world \<Rightarrow> string \<Rightarrow> string \<Rightarrow> string list \<Rightarrow> exn + entry list" where
  "scan_entries w directory base [] = Inr []"
| "scan_entries w directory base (name # names) =
     (let path = path_join directory name
      in case ctimes w path of
           Inr (timestamp, dt_str) \<Rightarrow>
             (case scan_entries w directory base names of
                Inl e \<Rightarrow> Inl e
              | Inr entries \<Rightarrow>
                  Inr (\<lparr>e_timestamp = timestamp, e_dt = dt_str, e_base = base,
                        e_name = name, e_path = path\<rparr> # entries))
         | Inl e \<Rightarrow> (if is_OSError e then scan_entries w directory base names else Inl e))"

text \<open>
  \<open>entries.sort(key=lambda x: x[0], reverse=True)\<close>: newest first; the sort is stable
  and \<open>reverse=True\<close> keeps entries of equal time in their order.
\<close>

definition sort_entries :: "entry list \<Rightarrow> entry list" where
  "sort_entries entries = rev (sort_key e_timestamp (rev entries))"

section \<open>Merging the audit streams of a set\<close>

text \<open>
  The two loops of \<open>BackupViewer.load_backups_from_name\<close> that collect the audit entries
  of all files and append them to every file.
\<close>

definition bv_sync :: "world \<Rightarrow> string list \<Rightarrow> world" where
  "bv_sync w file_paths =
     (let all_meta_audit_entries = concat (map (bv_read_meta_audit w) file_paths)
      in fold (\<lambda>file_path w'. bv_append_meta_audit w' file_path all_meta_audit_entries) file_paths w)"

text \<open>\<open>DocumentVersionExplorer.sync_meta_audit_streams\<close>, on the paths of the entries.\<close>

definition dve_sync_meta_audit_streams :: "world \<Rightarrow> string list \<Rightarrow> world" where
  "dve_sync_meta_audit_streams w file_paths =
     (if file_paths = [] then w
      else
        let all_unique_entries = remdups (concat (map (dve_read_meta_audit w) file_paths))
        in if all_unique_entries = [] then w
           else
             let entries_to_append_list = sort all_unique_entries
             in fold (\<lambda>file_path w'. dve_append_meta_audit w' file_path entries_to_append_list)
                  file_paths w)"

section \<open>Line counts, change descriptors and rows\<close>

definition total_line_count :: "world \<Rightarrow> string \<Rightarrow> string" where
  "total_line_count w path =
     (case open_read w path of
        Inr t \<Rightarrow> str_int (int (length (readlines t)))
      | Inl e \<Rightarrow> ''Error'')"

definition change_sign :: "nat \<Rightarrow> nat \<Rightarrow> string" where
  "change_sign curr_total next_total =
     (if curr_total > next_total then ''+''
      else if curr_total < next_total then ''-''
      else [])"

text \<open>
  \<open>BackupViewer\<close>: \<open>sum(1 for line in diff if line.startswith('+') or
  line.startswith('-'))\<close>, then \<open>max(0, change_count - 3)\<close>.
\<close>

definition bv_change_count :: "string list \<Rightarrow> int" where
  "bv_change_count diff =
     max 0 (int (length (filter (\<lambda>line. startswith line ''+'' \<or> startswith line ''-'') diff)) - 3)"

text \<open>
  \<open>DocumentVersionExplorer\<close>: \<open>sum(1 for line in diff if line.startswith(('+', '-'))
  and not line.startswith(('+++', '---')))\<close>.
\<close>

definition dve_change_count :: "string list \<Rightarrow> int" where
  "dve_change_count diff =
     int (length (filter (\<lambda>line. (startswith line ''+'' \<or> startswith line ''-'')
                               \<and> \<not> (startswith line ''+++'' \<or> startswith line ''---'')) diff))"

text \<open>
  The comparison of a file with the next older one; \<open>count\<close> is one of the two functions
  above. Every exception inside gives \<open>"Error"\<close>.
\<close>

definition diff_count :: "(string list \<Rightarrow> int) \<Rightarrow> matcher \<Rightarrow> world \<Rightarrow> string \<Rightarrow> string \<Rightarrow> string" where
  "diff_count count get_grouped_opcodes w curr_path next_path =
     (case open_read w curr_path of
        Inl e \<Rightarrow> ''Error''
      | Inr curr_text \<Rightarrow>
          (case open_read w next_path of
             Inl e \<Rightarrow> ''Error''
           | Inr next_text \<Rightarrow>
               (let curr_lines = readlines curr_text;
                    next_lines = readlines next_text;
                    diff = unified_diff get_grouped_opcodes next_lines curr_lines;
                    change_count = count diff
                in change_sign (length curr_lines) (length next_lines)
                   @ str_int change_count @ '' lines'')))"

text \<open>The loop \<open>for i in range(len(entries))\<close> that fills \<open>diff_counts\<close> and \<open>total_lines\<close>.\<close>

definition diff_counts :: "(string list \<Rightarrow> int) \<Rightarrow> matcher \<Rightarrow> world \<Rightarrow> entry list \<Rightarrow> string list" where
  "diff_counts count get_grouped_opcodes w entries =
     map (\<lambda>i. if i = length entries - 1 then ''N/A''
              else diff_count count get_grouped_opcodes w
                     (e_path (entries ! i)) (e_path (entries ! (i + 1))))
         [0..<length entries]"

definition total_lines :: "world \<Rightarrow> entry list \<Rightarrow> string list" where
  "total_lines w entries = map (\<lambda>i. total_line_count w (e_path (entries ! i))) [0..<length entries]"

text \<open>
  A row of the tree: the six columns and the path kept as item data. The meta tag of a
  row is what \<open>read_ads_metadata\<close> returns; the function is total on both sides.
\<close>

record row =
  r_dt :: string
  r_base :: string
  r_version :: string
  r_diff_count :: string
  r_total_lines :: string
  r_meta :: string
  r_path :: string

definition meta_text :: "exn + string \<Rightarrow> string" where
  "meta_text r = (case r of Inr t \<Rightarrow> t | Inl e \<Rightarrow> [])"

text \<open>
  The loop \<open>for idx, (entry, diff_count, total_line_count) in
  enumerate(zip(entries, diff_counts, total_lines))\<close>.
\<close>

definition make_rows :: "(string \<Rightarrow> exn + string) \<Rightarrow> entry list \<Rightarrow> string list \<Rightarrow> string list \<Rightarrow> row list" where
  "make_rows read_meta entries dcs tls =
     (let total_versions = int (length entries)
      in map (\<lambda>(idx, entry, dc, tl).
               let version_number = total_versions - int idx
               in \<lparr>r_dt = e_dt entry, r_base = e_base entry,
                   r_version = ''V'' @ str_int version_number,
                   r_diff_count = dc, r_total_lines = tl,
                   r_meta = meta_text (read_meta (e_path entry)), r_path = e_path entry\<rparr>)
             (enumerate 0 (zip entries (zip dcs tls))))"

definition bv_rows :: "matcher \<Rightarrow> world \<Rightarrow> entry list \<Rightarrow> row list" where
  "bv_rows get_grouped_opcodes w entries =
     make_rows (bv_read_ads_metadata w) entries
       (diff_counts bv_change_count get_grouped_opcodes w entries) (total_lines w entries)"

definition dve_rows :: "matcher \<Rightarrow> world \<Rightarrow> entry list \<Rightarrow> row list" where
  "dve_rows get_grouped_opcodes w entries =
     make_rows (dve_read_ads_metadata w) entries
       (diff_counts dve_change_count get_grouped_opcodes w entries) (total_lines w entries)"

section \<open>The two entry points\<close>

text \<open>
  \<open>BackupViewer.load_backups_from_name\<close>. The state is the directory, the selected batch
  file and the rows of the tree. An early return before \<open>self.tree.clear()\<close> leaves the
  tree as it was. \<open>Inl\<close> is an exception that leaves the method.
\<close>

record viewer =
  home_directory :: string
  batch_file_name :: "string option"
  tree :: "row list"

definition bv_load_backups_from_name :: "matcher \<Rightarrow> world \<Rightarrow> viewer \<Rightarrow> exn + world \<times> viewer" where
  "bv_load_backups_from_name get_grouped_opcodes w v =
     (case batch_file_name v of
        None \<Rightarrow> Inr (w, v)
      | Some batch_file \<Rightarrow>
          if \<not> path_exists w (home_directory v) then Inr (w, v)
          else
            (let base = bv_get_base_name (basename batch_file)
             in case list_backups w (home_directory v) base of
                  Inl e \<Rightarrow> Inr (w, v)
                | Inr backups \<Rightarrow>
                    if backups = [] then Inr (w, v\<lparr>tree := []\<rparr>)
                    else
                      (case scan_entries w (home_directory v) base backups of
                         Inl e \<Rightarrow> Inl e
                       | Inr scanned \<Rightarrow>
                           (let entries = sort_entries scanned;
                                w' = bv_sync w (map e_path entries)
                            in Inr (w', v\<lparr>tree := bv_rows get_grouped_opcodes w' entries\<rparr>)))))"

text \<open>
  \<open>DocumentVersionExplorer.load_versions\<close> for the file name of the selected master
  document. The tree is cleared first; the rows are added newest first and the view then
  sorts them by the same time stamps, descending.
\<close>

record explorer =
  backup_directory :: string
  version_tree :: "row list"

definition dve_load_versions :: "matcher \<Rightarrow> world \<Rightarrow> explorer \<Rightarrow> string option \<Rightarrow> exn + explorer" where
  "dve_load_versions get_grouped_opcodes w x item_filename =
     (case item_filename of
        None \<Rightarrow> Inr x
      | Some filename \<Rightarrow>
          let base_name = dve_get_base_name filename;
              x0 = x\<lparr>version_tree := []\<rparr>
          in if backup_directory x = [] \<or> \<not> isdir w (backup_directory x) then Inr x0
             else
               (case list_backups w (backup_directory x) base_name of
                  Inl e \<Rightarrow> Inr x0
                | Inr backups \<Rightarrow>
                    if backups = [] then Inr x0
                    else
                      (case scan_entries w (backup_directory x) base_name backups of
                         Inl e \<Rightarrow> Inl e
                       | Inr scanned \<Rightarrow>
                           Inr (x0\<lparr>version_tree :=
                                  dve_rows get_grouped_opcodes w (sort_entries scanned)\<rparr>))))"

section \<open>Auxiliary notions for the statements\<close>

text \<open>
  A text is terminated when it is empty or ends with a line feed. Every text that
  \<open>save_meta\<close> and \<open>append_meta_audit\<close> write to an audit stream is.
\<close>

definition terminated :: "string \<Rightarrow> bool" where
  "terminated c = (c = [] \<or> last c = newline)"

definition terminated_stream :: "world \<Rightarrow> string \<Rightarrow> bool" where
  "terminated_stream w file_path =
     (case texts w (file_path @ '':meta_audit'') of None \<Rightarrow> True | Some c \<Rightarrow> terminated c)"

text \<open>
  An audit stream that can be read and written and holds a terminated text, or is absent.
\<close>

definition stream_ok :: "world \<Rightarrow> string \<Rightarrow> bool" where
  "stream_ok w file_path =
     (read_errors w (file_path @ '':meta_audit'') = None
      \<and> write_errors w (file_path @ '':meta_audit'') = None
      \<and> terminated_stream w file_path)"

text \<open>The diff lines that a test on the first character takes for changes.\<close>

definition signed_kind :: "kind \<times> string \<Rightarrow> bool" where
  "signed_kind x = (fst x = Header \<or> fst x = Removal \<or> fst x = Addition)"

definition plus_or_minus :: "string \<Rightarrow> bool" where
  "plus_or_minus line = (startswith line ''+'' \<or> startswith line ''-'')"

text \<open>
  The regular expression \<^verbatim>\<open>^[+-]?\d+ lines$\<close>: an optional sign, one digit or more,
  the text \<open>" lines"\<close>, the end.
\<close>

definition matches_signed_lines :: "string \<Rightarrow> bool" where
  "matches_signed_lines s =
     (let unsigned = (case s of [] \<Rightarrow> [] | c # r \<Rightarrow> if c = CHR ''+'' \<or> c = CHR ''-'' then r else s);
          ds = takeWhile isdigit unsigned;
          rest = dropWhile isdigit unsigned
      in ds \<noteq> [] \<and> startswith rest '' lines'' \<and> at_dollar (drop 6 rest))"

text \<open>Whether the creation time of a listed name can be read.\<close>

definition good_ctime :: "world \<Rightarrow> string \<Rightarrow> string \<Rightarrow> bool" where
  "good_ctime w directory name = (case ctimes w (path_join directory name) of Inr x \<Rightarrow> True | Inl e \<Rightarrow> False)"

section \<open>Example data\<close>

text \<open>
  An empty file system, and a backup directory with two readable backups of
  \<open>report.txt\<close>, a third one whose creation time cannot be read, two backups of
  \<open>notes.sql\<close> and two backups of \<open>memo.txt\<close> with the same content.
\<close>

definition w_empty :: world where
  "w_empty = \<lparr>isdir = (\<lambda>d. False), dirs = (\<lambda>d. Inl FileNotFoundError),
     ctimes = (\<lambda>p. Inl FileNotFoundError), texts = Map.empty,
     read_errors = Map.empty, write_errors = Map.empty\<rparr>"

definition bk :: "string \<Rightarrow> string" where
  "bk name = path_join ''C:/bk'' name"

definition w_report :: world where
  "w_report = w_empty\<lparr>
     isdir := (\<lambda>d. d = ''C:/bk''),
     dirs := (\<lambda>d. if d = ''C:/bk''
        then Inr [''report.txt'', ''report.txt.2024-01-01_090000.bak'',
                  ''report.txt.2024-01-02_100000.bak'', ''report.txt.2024-01-03_110000.bak'',
                  ''notes.sql.2024-01-01_090000.bak'', ''notes.sql.2024-01-02_100000.bak'',
                  ''memo.txt.2024-01-01_090000.bak'', ''memo.txt.2024-01-02_100000.bak'']
        else Inl FileNotFoundError),
     ctimes := (\<lambda>p.
        if p = bk ''report.txt.2024-01-01_090000.bak'' \<or> p = bk ''notes.sql.2024-01-01_090000.bak''
           \<or> p = bk ''memo.txt.2024-01-01_090000.bak''
          then Inr (1704099600, ''mon 01/01/2024 09:00am'')
        else if p = bk ''report.txt.2024-01-02_100000.bak'' \<or> p = bk ''notes.sql.2024-01-02_100000.bak''
           \<or> p = bk ''memo.txt.2024-01-02_100000.bak''
          then Inr (1704189600, ''tue 01/02/2024 10:00am'')
        else if p = bk ''report.txt.2024-01-03_110000.bak'' then Inl PermissionError
        else Inl FileNotFoundError),
     texts := [bk ''report.txt.2024-01-01_090000.bak'' \<mapsto> ''a'' @ [newline] @ ''b'' @ [newline],
               bk ''report.txt.2024-01-02_100000.bak'' \<mapsto> ''a'' @ [newline] @ ''b'' @ [newline] @ ''c'' @ [newline],
               bk ''report.txt.2024-01-03_110000.bak'' \<mapsto> ''a'' @ [newline],
               bk ''notes.sql.2024-01-01_090000.bak'' \<mapsto> ''-- x'' @ [newline] @ ''k'' @ [newline],
               bk ''notes.sql.2024-01-02_100000.bak'' \<mapsto> ''k'' @ [newline],
               bk ''memo.txt.2024-01-01_090000.bak'' \<mapsto> ''m'' @ [newline],
               bk ''memo.txt.2024-01-02_100000.bak'' \<mapsto> ''m'' @ [newline]]\<rparr>"

text \<open>The entries of the three sets, newest first.\<close>

definition es_report :: "entry list" where
  "es_report =
    [\<lparr>e_timestamp = 1704189600, e_dt = ''tue 01/02/2024 10:00am'', e_base = ''report'',
      e_name = ''report.txt.2024-01-02_100000.bak'', e_path = bk ''report.txt.2024-01-02_100000.bak''\<rparr>,
     \<lparr>e_timestamp = 1704099600, e_dt = ''mon 01/01/2024 09:00am'', e_base = ''report'',
      e_name = ''report.txt.2024-01-01_090000.bak'', e_path = bk ''report.txt.2024-01-01_090000.bak''\<rparr>]"

definition es_notes :: "entry list" where
  "es_notes =
    [\<lparr>e_timestamp = 1704189600, e_dt = ''tue 01/02/2024 10:00am'', e_base = ''notes'',
      e_name = ''notes.sql.2024-01-02_100000.bak'', e_path = bk ''notes.sql.2024-01-02_100000.bak''\<rparr>,
     \<lparr>e_timestamp = 1704099600, e_dt = ''mon 01/01/2024 09:00am'', e_base = ''notes'',
      e_name = ''notes.sql.2024-01-01_090000.bak'', e_path = bk ''notes.sql.2024-01-01_090000.bak''\<rparr>]"

definition es_memo :: "entry list" where
  "es_memo =
    [\<lparr>e_timestamp = 1704189600, e_dt = ''tue 01/02/2024 10:00am'', e_base = ''memo'',
      e_name = ''memo.txt.2024-01-02_100000.bak'', e_path = bk ''memo.txt.2024-01-02_100000.bak''\<rparr>,
     \<lparr>e_timestamp = 1704099600, e_dt = ''mon 01/01/2024 09:00am'', e_base = ''memo'',
      e_name = ''memo.txt.2024-01-01_090000.bak'', e_path = bk ''memo.txt.2024-01-01_090000.bak''\<rparr>]"

definition v_report :: viewer where
  "v_report = \<lparr>home_directory = ''C:/bk'', batch_file_name = Some ''C:/bk/report.txt'', tree = []\<rparr>"

definition x_report :: explorer where
  "x_report = \<lparr>backup_directory = ''C:/bk'', version_tree = []\<rparr>"

definition report_backups :: "string list" where
  "report_backups = [''report.txt.2024-01-01_090000.bak'', ''report.txt.2024-01-02_100000.bak'',
     ''report.txt.2024-01-03_110000.bak'']"

text \<open>
  The hunks that \<open>SequenceMatcher(None, a, b).get_grouped_opcodes(3)\<close> returns for the
  pairs of line lists that occur in the examples, and no hunk for any other pair, which
  is what it returns for two equal lists.
\<close>

definition difflib_cases :: matcher where
  "difflib_cases a b =
     (if a = [''a'' @ [newline], ''b'' @ [newline]]
         \<and> b = [''a'' @ [newline], ''b'' @ [newline], ''c'' @ [newline]]
        then [((Equal, 0, 2, 0, 2), [(Insert, 2, 2, 2, 3)])]
      else if a = [''-- x'' @ [newline], ''k'' @ [newline]] \<and> b = [''k'' @ [newline]]
        then [((Delete, 0, 1, 0, 0), [(Equal, 1, 2, 0, 1)])]
      else [])"

text \<open>
  Two files with one audit entry each; the same with the first stream lacking its final
  line feed; the same with the first stream failing to decode when it is read.
\<close>

definition w_audit :: world where
  "w_audit = w_empty\<lparr>texts :=
     [''a.bak'' \<mapsto> ''1'', ''b.bak'' \<mapsto> ''2'',
      ''a.bak:meta_audit'' \<mapsto> ''x'' @ [newline],
      ''b.bak:meta_audit'' \<mapsto> ''y'' @ [newline]]\<rparr>"

definition w_loose :: world where
  "w_loose = w_empty\<lparr>texts :=
     [''a.bak'' \<mapsto> ''1'', ''b.bak'' \<mapsto> ''2'',
      ''a.bak:meta_audit'' \<mapsto> ''x'',
      ''b.bak:meta_audit'' \<mapsto> ''y'' @ [newline]]\<rparr>"


section \<open>Properties of the base names\<close>

lemma find_down:
  "k \<le> n \<Longrightarrow> P k \<Longrightarrow> (\<forall>j. k < j \<and> j \<le> n \<longrightarrow> \<not> P j) \<Longrightarrow> find P (rev [0..<Suc n]) = Some k"
proof (induction n)
  case 0 then show ?case by simp
next
  case (Suc n)
  show ?case
  proof (cases "k = Suc n")
    case True then show ?thesis using Suc.prems by simp
  next
    case False
    then have "k \<le> n" using Suc.prems by simp
    moreover have "\<not> P (Suc n)" using Suc.prems False by auto
    ultimately show ?thesis using Suc by simp
  qed
qed

lemma match_atoms_length:
  "match_atoms as s = Some r \<Longrightarrow> length s = length as + length r"
  by (induction as s rule: match_atoms.induct) (auto split: if_splits)

lemma match_atoms_append:
  "match_atoms as s = Some [] \<Longrightarrow> match_atoms bs t = Some r \<Longrightarrow> match_atoms (as @ bs) (s @ t) = Some r"
  by (induction as s rule: match_atoms.induct) (auto split: if_splits)

lemma match_digits:
  "list_all isdigit s \<Longrightarrow> match_atoms (replicate (length s) Digit) s = Some []"
  by (induction s) auto

lemma match_lits: "match_atoms (map Lit s) s = Some []"
  by (induction s) auto

lemma stamp_suffix_matches:
  assumes "digits 4 y" "digits 2 m" "digits 2 d" "digits 6 t"
  shows "match_atoms stamp_atoms (stamp_suffix y m d t) = Some []"
proof -
  have y: "match_atoms (replicate 4 Digit) y = Some []"
    using assms(1) match_digits[of y] by (simp add: digits_def)
  have m: "match_atoms (replicate 2 Digit) m = Some []"
    using assms(2) match_digits[of m] by (simp add: digits_def)
  have d: "match_atoms (replicate 2 Digit) d = Some []"
    using assms(3) match_digits[of d] by (simp add: digits_def)
  have t: "match_atoms (replicate 6 Digit) t = Some []"
    using assms(4) match_digits[of t] by (simp add: digits_def)
  have l: "\<And>c. match_atoms [Lit c] [c] = Some []" by simp
  have b: "match_atoms (map Lit ''.bak'') ''.bak'' = Some []" by (rule match_lits)
  show ?thesis
    unfolding stamp_atoms_def stamp_suffix_def
    using match_atoms_append[OF l[of "CHR ''.''"] match_atoms_append[OF y match_atoms_append[OF l[of "CHR ''-''"]
        match_atoms_append[OF m match_atoms_append[OF l[of "CHR ''-''"] match_atoms_append[OF d
        match_atoms_append[OF l[of "CHR ''_''"] match_atoms_append[OF t b]]]]]]]]
    by simp
qed


lemma stamp_suffix_length:
  "digits 4 y \<Longrightarrow> digits 2 m \<Longrightarrow> digits 2 d \<Longrightarrow> digits 6 t \<Longrightarrow> length (stamp_suffix y m d t) = 22"
  by (simp add: digits_def stamp_suffix_def)

lemma stamp_atoms_length: "length stamp_atoms = 22"
  by (simp add: stamp_atoms_def)


lemma match_atoms_suffix:
  "match_atoms as s = Some r \<Longrightarrow> \<exists>p. s = p @ r \<and> length p = length as"
proof (induction as s rule: match_atoms.induct)
  case (3 a as c s)
  then obtain p where "s = p @ r" "length p = length as"
    by (auto split: if_splits)
  then have "c # s = (c # p) @ r \<and> length (c # p) = length (a # as)" by simp
  then show ?case by blast
qed auto

lemma tail_matches_length:
  assumes "tail_matches s"
  shows "length s = 22 \<or> (length s = 23 \<and> last s = newline)"
proof -
  from assms obtain r where r: "match_atoms stamp_atoms s = Some r" "at_dollar r"
    by (auto simp: tail_matches_def split: option.splits)
  from match_atoms_suffix[OF r(1)] obtain p where p: "s = p @ r" "length p = 22"
    by (auto simp: stamp_atoms_length)
  from r(2) p show ?thesis by (auto simp: at_dollar_def)
qed

lemma isdigit_newline: "\<not> isdigit newline"
  by (simp add: isdigit_def newline_def)

lemma digits_no_newline: "digits n s \<Longrightarrow> newline \<notin> set s"
  using isdigit_newline by (auto simp: digits_def list_all_iff)

lemma stamp_suffix_no_newline:
  assumes "digits 4 y" "digits 2 m" "digits 2 d" "digits 6 t"
  shows "newline \<notin> set (stamp_suffix y m d t)"
proof -
  have "newline \<notin> set y" "newline \<notin> set m" "newline \<notin> set d" "newline \<notin> set t"
    using assms by (simp_all add: digits_no_newline)
  moreover have "newline \<notin> set ''.-_bak''" by (simp add: newline_def)
  ultimately show ?thesis
    unfolding stamp_suffix_def by simp
qed

lemma stamp_suffix_last:
  "last (stamp_suffix y m d t) = CHR ''k''"
  by (simp add: stamp_suffix_def)

lemma re_match_group1_stem:
  assumes dg: "digits 4 y" "digits 2 m" "digits 2 d" "digits 6 t"
    and nl: "newline \<notin> set stem"
  shows "re_match_group1 (stem @ stamp_suffix y m d t) = Some stem"
proof -
  let ?sfx = "stamp_suffix y m d t"
  let ?s = "stem @ ?sfx"
  let ?P = "\<lambda>k. tail_matches (drop k ?s)"
  have len: "length ?sfx = 22" using dg by (rule stamp_suffix_length)
  have "newline \<notin> set ?s" using nl stamp_suffix_no_newline[OF dg] by simp
  then have tw: "takeWhile (\<lambda>c. c \<noteq> newline) ?s = ?s"
    by (intro takeWhile_eq_all_conv[THEN iffD2]) auto
  have P: "?P (length stem)"
    using stamp_suffix_matches[OF dg] by (simp add: tail_matches_def at_dollar_def)
  have notP: "\<not> ?P j" if "length stem < j" "j \<le> length ?s" for j
  proof
    assume "?P j"
    from tail_matches_length[OF this] that len show False by auto
  qed
  have "find ?P (rev [0..<Suc (length ?s)]) = Some (length stem)"
    by (rule find_down) (use P notP in auto)
  then show ?thesis
    unfolding re_match_group1_def Let_def tw by simp
qed

lemma re_match_group1_newline:
  assumes dg: "digits 4 y" "digits 2 m" "digits 2 d" "digits 6 t"
    and nl: "newline \<in> set stem"
  shows "re_match_group1 (stem @ stamp_suffix y m d t) = None"
proof -
  let ?sfx = "stamp_suffix y m d t"
  let ?s = "stem @ ?sfx"
  let ?n = "length (takeWhile (\<lambda>c. c \<noteq> newline) ?s)"
  have len: "length ?sfx = 22" using dg by (rule stamp_suffix_length)
  have tw: "takeWhile (\<lambda>c. c \<noteq> newline) ?s = takeWhile (\<lambda>c. c \<noteq> newline) stem"
    using nl by simp
  have n: "?n < length stem"
    unfolding tw using nl by (induction stem) auto
  have "\<not> tail_matches (drop k ?s)" if "k \<le> ?n" for k
  proof
    assume tm: "tail_matches (drop k ?s)"
    have "last (drop k ?s) = CHR ''k''"
    proof -
      have "?sfx \<noteq> []" using len by auto
      then have "drop k ?s = drop k stem @ ?sfx" "last (drop k stem @ ?sfx) = last ?sfx"
        using that n by simp_all
      then show ?thesis by (simp add: stamp_suffix_last)
    qed
    moreover have "length (drop k ?s) > 22" using that n len by simp
    ultimately show False using tail_matches_length[OF tm] by (auto simp: newline_def)
  qed
  then have "find (\<lambda>k. tail_matches (drop k ?s)) (rev [0..<Suc ?n]) = None"
    by (auto simp: find_None_iff)
  then show ?thesis
    unfolding re_match_group1_def Let_def by simp
qed

lemma split_dot_first_stem:
  "split_dot_first (stem @ stamp_suffix y m d t) = split_dot_first stem"
  unfolding split_dot_first_def stamp_suffix_def
  by (induction stem) auto

lemma strip_extensions_no_dot:
  "CHR ''.'' \<notin> set base \<Longrightarrow> strip_extensions base = base"
  by (simp add: strip_extensions.simps)

lemma split_dot_first_no_dot: "CHR ''.'' \<notin> set (split_dot_first s)"
  unfolding split_dot_first_def by (induction s) auto

lemma split_dot_first_id: "CHR ''.'' \<notin> set s \<Longrightarrow> split_dot_first s = s"
  unfolding split_dot_first_def by (induction s) auto

lemma strip_extensions_eq: "strip_extensions base = split_dot_first base"
proof (cases "CHR ''.'' \<in> set base")
  case True
  then have "strip_extensions base = strip_extensions (split_dot_first base)"
    by (subst strip_extensions.simps) simp
  then show ?thesis by (simp add: strip_extensions_no_dot split_dot_first_no_dot)
next
  case False
  then show ?thesis by (simp add: strip_extensions_no_dot split_dot_first_id)
qed

text \<open>
  Claim C2, as the code has it. For a file name made of a stem and the suffix
  \<open>.<YYYY>-<MM>-<DD>_<HHMMSS>.bak\<close>, \<open>DocumentVersionExplorer._get_base_name\<close> returns
  the stem unmodified, dots included, unless the stem holds a line feed, in which case
  it returns the stem up to its first dot; \<open>BackupViewer._get_base_name\<close> returns the
  stem up to its first dot, that is the stem itself only when it has no dot.
\<close>

theorem base_name_timestamped:
  assumes "digits 4 y" "digits 2 m" "digits 2 d" "digits 6 t"
  shows "dve_get_base_name (stem @ stamp_suffix y m d t)
           = (if newline \<in> set stem then split_dot_first stem else stem)
       \<and> bv_get_base_name (stem @ stamp_suffix y m d t) = split_dot_first stem"
proof (cases "newline \<in> set stem")
  case True
  then show ?thesis
    using re_match_group1_newline[OF assms True]
    by (simp add: bv_get_base_name_def dve_get_base_name_def strip_extensions_eq
        split_dot_first_stem split_dot_first_id split_dot_first_no_dot)
next
  case False
  then show ?thesis
    using re_match_group1_stem[OF assms False]
    by (simp add: bv_get_base_name_def dve_get_base_name_def strip_extensions_eq)
qed

theorem base_name_timestamped_witness:
  "dve_get_base_name ''report.v2.txt.2024-01-02_100000.bak'' = ''report.v2.txt''
   \<and> bv_get_base_name ''report.v2.txt.2024-01-02_100000.bak'' = ''report''"
proof -
  have d: "digits 4 ''2024''" "digits 2 ''01''" "digits 2 ''02''" "digits 6 ''100000''"
    by (simp_all add: digits_def isdigit_def)
  have n: "newline \<notin> set ''report.v2.txt''" by (simp add: newline_def)
  show ?thesis
    using base_name_timestamped[OF d, of "''report.v2.txt''"] n
    by (simp add: stamp_suffix_def split_dot_first_def)
qed

text \<open>
  Claim C2 as stated fails: \<open>BackupViewer._get_base_name\<close> cuts the stem \<open>script.py\<close> of
  the example in its own comment down to \<open>script\<close>, and
  \<open>DocumentVersionExplorer._get_base_name\<close> cuts a stem that holds a line feed at its
  first dot.
\<close>

theorem base_name_stem_counterexample:
  "bv_get_base_name ''script.py.2025-05-03_115301.bak'' \<noteq> ''script.py''
   \<and> dve_get_base_name (''a'' @ [newline] @ ''.b.2025-05-03_115301.bak'') \<noteq> ''a'' @ [newline] @ ''.b''"
  by code_simp

section \<open>Properties of the source stream\<close>

lemma dropWhile_rev_dropWhile:
  "dropWhile P (rev (dropWhile P (rev (dropWhile P s)))) = rev (dropWhile P (rev (dropWhile P s)))"
proof -
  define u where "u = dropWhile P s"
  define v where "v = dropWhile P (rev u)"
  have "rev v = [] \<or> \<not> P (hd (rev v))"
  proof (cases "v = []")
    case False
    then obtain x where "x \<in> set (rev u)" "\<not> P x"
      unfolding v_def by auto
    then have "last v = last (rev u)"
      unfolding v_def by (rule dropWhile_last)
    moreover have "u \<noteq> []" using False v_def by auto
    then have "\<not> P (hd u)" unfolding u_def by (metis hd_dropWhile)
    ultimately show ?thesis using False \<open>u \<noteq> []\<close> by (simp add: hd_rev last_rev)
  qed simp
  then show ?thesis
    unfolding u_def v_def by (simp add: dropWhile_eq_self_iff)
qed

lemma strip_strip: "strip (strip s) = strip s"
  unfolding strip_def by (simp add: dropWhile_rev_dropWhile)

text \<open>
  Claim C8. For every file path, \<open>read_ads_metadata\<close> of either program returns the
  stripped text of the \<open>:source\<close> stream, or the empty text when the stream cannot be
  opened and read (it is absent or unreadable); the result is always a returned value,
  never an exception.
\<close>

theorem read_source_total:
  "bv_read_ads_metadata w file_path
     = Inr (case open_read w (file_path @ '':source'') of Inr t \<Rightarrow> strip t | Inl e \<Rightarrow> [])
   \<and> dve_read_ads_metadata w file_path
     = Inr (case open_read w (file_path @ '':source'') of Inr t \<Rightarrow> strip t | Inl e \<Rightarrow> [])"
  by (auto simp: bv_read_ads_metadata_def dve_read_ads_metadata_def path_exists_def open_read_def
      Let_def split: sum.splits option.splits)

lemma open_read_after_write:
  "open_write w p t = Inr w' \<Longrightarrow> read_errors w p = None \<Longrightarrow> open_read w' p = Inr t"
  by (auto simp: open_write_def open_read_def split: option.splits)

lemma open_read_after_append_other:
  "open_append w q t = Inr w' \<Longrightarrow> q \<noteq> p \<Longrightarrow> open_read w' p = open_read w p"
  by (auto simp: open_append_def open_read_def split: option.splits)

lemma save_meta_source:
  assumes "write_errors w (file_path @ '':source'') = None"
  shows "texts (save_meta w file_path new_text now) (file_path @ '':source'') = Some (strip new_text)
         \<and> read_errors (save_meta w file_path new_text now) = read_errors w"
  using assms
  by (auto simp: save_meta_def open_write_def open_append_def Let_def split: option.splits sum.splits)

text \<open>
  Claim C9. When the \<open>:source\<close> stream of a path can be written and read, \<open>save_meta\<close>
  stores the text of the edit field with the whitespace at both ends stripped, and
  \<open>read_ads_metadata\<close> of either program then returns that stripped text.
\<close>

theorem save_then_read_source:
  assumes "write_errors w (file_path @ '':source'') = None"
    and "read_errors w (file_path @ '':source'') = None"
  shows "texts (save_meta w file_path new_text now) (file_path @ '':source'') = Some (strip new_text)
       \<and> bv_read_ads_metadata (save_meta w file_path new_text now) file_path = Inr (strip new_text)
       \<and> dve_read_ads_metadata (save_meta w file_path new_text now) file_path = Inr (strip new_text)"
  using save_meta_source[OF assms(1), of new_text now] assms(2)
  by (simp add: bv_read_ads_metadata_def dve_read_ads_metadata_def path_exists_def open_read_def
      Let_def strip_strip)

theorem save_then_read_source_witness:
  "bv_read_ads_metadata (save_meta w_empty ''a.bak'' ''  final draft  '' ''2025-05-03 11:53:01'') ''a.bak''
     = Inr ''final draft''
   \<and> dve_read_ads_metadata (save_meta w_empty ''a.bak'' ''  final draft  '' ''2025-05-03 11:53:01'') ''a.bak''
     = Inr ''final draft''"
proof -
  have s: "strip ''  final draft  '' = ''final draft''"
    by (simp add: strip_def isspace_def)
  have "write_errors w_empty (''a.bak'' @ '':source'') = None"
    "read_errors w_empty (''a.bak'' @ '':source'') = None"
    by (simp_all add: w_empty_def)
  from save_then_read_source[OF this, of "''  final draft  ''" "''2025-05-03 11:53:01''"]
  show ?thesis by (simp add: s)
qed

theorem read_source_total_witness:
  "bv_read_ads_metadata (w_empty\<lparr>texts := [''a.bak:source'' \<mapsto> '' v2 '']\<rparr>) ''a.bak'' = Inr ''v2''
   \<and> dve_read_ads_metadata (w_empty\<lparr>texts := [''a.bak:source'' \<mapsto> '' v2 '']\<rparr>) ''a.bak'' = Inr ''v2''
   \<and> bv_read_ads_metadata w_empty ''a.bak'' = Inr []
   \<and> dve_read_ads_metadata (w_empty\<lparr>read_errors := [''a.bak:source'' \<mapsto> PermissionError]\<rparr>) ''a.bak'' = Inr []"
  using read_source_total[of "w_empty\<lparr>texts := [''a.bak:source'' \<mapsto> '' v2 '']\<rparr>" "''a.bak''"]
    read_source_total[of w_empty "''a.bak''"]
    read_source_total[of "w_empty\<lparr>read_errors := [''a.bak:source'' \<mapsto> PermissionError]\<rparr>" "''a.bak''"]
  by (simp add: open_read_def w_empty_def strip_def isspace_def)

section \<open>Properties of the rows\<close>

lemma digit_char_isdigit: "d < 10 \<Longrightarrow> isdigit (''0123456789'' ! d)"
proof -
  assume "d < 10"
  then have "d \<in> {0,1,2,3,4,5,6,7,8,9}" by auto
  then show ?thesis by (auto simp: isdigit_def)
qed

lemma str_nat_digits: "list_all isdigit (str_nat n) \<and> str_nat n \<noteq> []"
proof (induction n rule: str_nat.induct)
  case (1 n)
  show ?case
  proof (cases "n < 10")
    case True
    then show ?thesis by (subst (1 2) str_nat.simps) (simp add: digit_char_isdigit)
  next
    case False
    then show ?thesis using 1
      by (subst (1 2) str_nat.simps) (simp add: digit_char_isdigit)
  qed
qed

lemma str_int_digits: "0 \<le> i \<Longrightarrow> list_all isdigit (str_int i) \<and> str_int i \<noteq> []"
  by (simp add: str_int_def str_nat_digits)

lemma isdigit_not_sign: "isdigit c \<Longrightarrow> c \<noteq> CHR ''+'' \<and> c \<noteq> CHR ''-'' \<and> c \<noteq> CHR '' ''"
  by (auto simp: isdigit_def)

lemma matches_signed_lines_digits:
  assumes "list_all isdigit ds" "ds \<noteq> []"
    and "sign = [] \<or> sign = ''+'' \<or> sign = ''-''"
  shows "matches_signed_lines (sign @ ds @ '' lines'')"
proof -
  obtain d ds' where ds: "ds = d # ds'" using assms(2) by (cases ds) auto
  have d: "isdigit d" using assms(1) ds by simp
  have uns: "(case sign @ ds @ '' lines'' of [] \<Rightarrow> []
              | c # r \<Rightarrow> if c = CHR ''+'' \<or> c = CHR ''-'' then r else sign @ ds @ '' lines'')
             = ds @ '' lines''"
    using assms(3) isdigit_not_sign[OF d] by (auto simp: ds)
  have nd: "\<not> isdigit (CHR '' '')" by (simp add: isdigit_def)
  have tw: "takeWhile isdigit (ds @ '' lines'') = ds"
    using assms(1) nd by (simp add: list_all_iff)
  have dw: "dropWhile isdigit (ds @ '' lines'') = '' lines''"
    using assms(1) nd by (simp add: list_all_iff)
  show ?thesis
    unfolding matches_signed_lines_def uns Let_def tw dw
    using assms(2) by (simp add: startswith_def at_dollar_def)
qed

lemma change_sign_cases: "change_sign a b = [] \<or> change_sign a b = ''+'' \<or> change_sign a b = ''-''"
  by (simp add: change_sign_def)

lemma bv_change_count_nonneg: "0 \<le> bv_change_count diff"
  by (simp add: bv_change_count_def)

lemma dve_change_count_nonneg: "0 \<le> dve_change_count diff"
  by (simp add: dve_change_count_def)

lemma diff_count_matches:
  assumes "\<And>d. 0 \<le> count d"
    and "open_read w curr_path = Inr c" "open_read w next_path = Inr n"
  shows "matches_signed_lines (diff_count count M w curr_path next_path)"
  using assms(2,3) str_int_digits[OF assms(1)] change_sign_cases
  by (simp add: diff_count_def Let_def matches_signed_lines_digits)

lemma length_diff_counts: "length (diff_counts count M w es) = length es"
  by (simp add: diff_counts_def)

lemma length_total_lines: "length (total_lines w es) = length es"
  by (simp add: total_lines_def)

lemma length_make_rows:
  "length dcs = length es \<Longrightarrow> length tls = length es \<Longrightarrow> length (make_rows rm es dcs tls) = length es"
  by (simp add: make_rows_def Let_def)

lemma nth_make_rows:
  assumes "length dcs = length es" "length tls = length es" "i < length es"
  shows "make_rows rm es dcs tls ! i =
     \<lparr>r_dt = e_dt (es ! i), r_base = e_base (es ! i),
      r_version = ''V'' @ str_int (int (length es) - int i),
      r_diff_count = dcs ! i, r_total_lines = tls ! i,
      r_meta = meta_text (rm (e_path (es ! i))), r_path = e_path (es ! i)\<rparr>"
  using assms by (simp add: make_rows_def Let_def nth_enumerate_eq)

lemma nth_diff_counts:
  "i < length es \<Longrightarrow> diff_counts count M w es ! i =
     (if i = length es - 1 then ''N/A''
      else diff_count count M w (e_path (es ! i)) (e_path (es ! (i + 1))))"
  by (simp add: diff_counts_def)

lemma versions_down: "map (\<lambda>i. int n - int i) [0..<n] = rev [1..int n]"
proof (induction n)
  case 0
  then show ?case by simp
next
  case (Suc n)
  have "[0..<Suc n] = 0 # map Suc [0..<n]"
    by (simp add: upt_conv_Cons map_Suc_upt del: upt_Suc)
  then have "map (\<lambda>i. int (Suc n) - int i) [0..<Suc n]
           = int (Suc n) # map (\<lambda>i. int n - int i) [0..<n]"
    by (simp add: comp_def del: upt_Suc)
  moreover have "[1..int (Suc n)] = [1..int n] @ [int (Suc n)]"
    using upto_rec2[of 1 "int (Suc n)"] by simp
  ultimately show ?case using Suc by simp
qed

lemma make_rows_versions:
  assumes "length dcs = length es" "length tls = length es"
  shows "map r_version (make_rows rm es dcs tls)
         = map (\<lambda>v. ''V'' @ str_int v) (rev [1..int (length es)])"
proof -
  have "map r_version (make_rows rm es dcs tls)
        = map (\<lambda>i. ''V'' @ str_int (int (length es) - int i)) [0..<length es]"
    by (rule nth_equalityI) (simp_all add: length_make_rows nth_make_rows assms)
  also have "\<dots> = map (\<lambda>v. ''V'' @ str_int v) (map (\<lambda>i. int (length es) - int i) [0..<length es])"
    by (simp add: comp_def)
  finally show ?thesis by (simp only: versions_down)
qed

lemma length_rows:
  "length (bv_rows M w es) = length es" "length (dve_rows M w es) = length es"
  by (simp_all add: bv_rows_def dve_rows_def length_make_rows length_diff_counts length_total_lines)

text \<open>
  Claim C3. For a set of \<open>N\<close> entries, newest first, both programs produce \<open>N\<close> rows;
  the row at index \<open>i\<close> is labelled \<open>V\<close> followed by \<open>N - i\<close>, so the labels from top
  to bottom are those of \<open>N, N - 1, \<dots>, 1\<close>: every integer from 1 to \<open>N\<close> once, the
  newest entry \<open>VN\<close> and the oldest \<open>V1\<close>.
\<close>

theorem version_labels:
  "length (bv_rows M w es) = length es
   \<and> (\<forall>i<length es. r_version (bv_rows M w es ! i) = ''V'' @ str_int (int (length es) - int i))
   \<and> map r_version (bv_rows M w es) = map (\<lambda>v. ''V'' @ str_int v) (rev [1..int (length es)])
   \<and> length (dve_rows M w es) = length es
   \<and> (\<forall>i<length es. r_version (dve_rows M w es ! i) = ''V'' @ str_int (int (length es) - int i))
   \<and> map r_version (dve_rows M w es) = map (\<lambda>v. ''V'' @ str_int v) (rev [1..int (length es)])"
  by (simp add: bv_rows_def dve_rows_def length_make_rows nth_make_rows make_rows_versions
      length_diff_counts length_total_lines)

theorem version_labels_witness:
  "map r_version (bv_rows difflib_cases w_report es_report) = [''V2'', ''V1'']
   \<and> map r_version (dve_rows difflib_cases w_report es_report) = [''V2'', ''V1'']"
proof -
  have "map (\<lambda>v. ''V'' @ str_int v) (rev [1..int (length es_report)]) = [''V2'', ''V1'']"
    by code_simp
  then show ?thesis
    using version_labels[of difflib_cases w_report es_report] by simp
qed

text \<open>
  Claim C6. In the rows of a non-empty set the last row, that of the oldest entry, has
  the change descriptor \<open>N/A\<close>; this covers the single row of a set of one file. Every
  other row whose file and whose next older file are both read without error has a
  descriptor that matches \<^verbatim>\<open>^[+-]?\d+ lines$\<close>.
\<close>

theorem change_descriptor_shape:
  assumes "es \<noteq> []"
  shows "r_diff_count (last (bv_rows M w es)) = ''N/A''
    \<and> r_diff_count (last (dve_rows M w es)) = ''N/A''
    \<and> (\<forall>i. i + 1 < length es
          \<and> (\<exists>c. open_read w (e_path (es ! i)) = Inr c)
          \<and> (\<exists>n. open_read w (e_path (es ! (i + 1))) = Inr n)
        \<longrightarrow> matches_signed_lines (r_diff_count (bv_rows M w es ! i))
          \<and> matches_signed_lines (r_diff_count (dve_rows M w es ! i)))"
proof -
  let ?n = "length es"
  have n: "?n - 1 < ?n" using assms by simp
  have "bv_rows M w es \<noteq> []" "dve_rows M w es \<noteq> []"
    using assms length_rows[of M w es] by auto
  then have "last (bv_rows M w es) = bv_rows M w es ! (?n - 1)"
    "last (dve_rows M w es) = dve_rows M w es ! (?n - 1)"
    by (simp_all add: last_conv_nth length_rows)
  then have a: "r_diff_count (last (bv_rows M w es)) = ''N/A''"
    "r_diff_count (last (dve_rows M w es)) = ''N/A''"
    using n by (simp_all add: bv_rows_def dve_rows_def nth_make_rows length_diff_counts
        length_total_lines nth_diff_counts)
  have b: "matches_signed_lines (r_diff_count (bv_rows M w es ! i))
         \<and> matches_signed_lines (r_diff_count (dve_rows M w es ! i))"
    if "i + 1 < ?n" "open_read w (e_path (es ! i)) = Inr c"
      "open_read w (e_path (es ! (i + 1))) = Inr n" for i c n
  proof -
    have i: "i < ?n" "i \<noteq> ?n - 1" using that(1) by simp_all
    show ?thesis
      using i diff_count_matches[OF bv_change_count_nonneg that(2,3)]
        diff_count_matches[OF dve_change_count_nonneg that(2,3)]
      by (simp add: bv_rows_def dve_rows_def nth_make_rows length_diff_counts
          length_total_lines nth_diff_counts)
  qed
  show ?thesis using a b by blast
qed

theorem change_descriptor_shape_witness:
  "r_diff_count (last (bv_rows difflib_cases w_report es_report)) = ''N/A''
   \<and> r_diff_count (last (dve_rows difflib_cases w_report es_report)) = ''N/A''
   \<and> matches_signed_lines (r_diff_count (bv_rows difflib_cases w_report es_report ! 0))
   \<and> matches_signed_lines (r_diff_count (dve_rows difflib_cases w_report es_report ! 0))"
proof -
  have n: "es_report \<noteq> []" "0 + 1 < length es_report"
    by (simp_all add: es_report_def)
  have r: "open_read w_report (e_path (es_report ! 0)) = Inr (''a'' @ [newline] @ ''b'' @ [newline] @ ''c'' @ [newline])"
    "open_read w_report (e_path (es_report ! (0 + 1))) = Inr (''a'' @ [newline] @ ''b'' @ [newline])"
    by code_simp+
  show ?thesis
    using change_descriptor_shape[OF n(1), of difflib_cases w_report] n(2) r by blast
qed

section \<open>Properties of the resolver\<close>

lemma scan_entries_skips:
  assumes "\<forall>name\<in>set backups. \<forall>e. ctimes w (path_join d name) = Inl e \<longrightarrow> is_OSError e"
  shows "\<exists>es. scan_entries w d base backups = Inr es
            \<and> map e_name es = filter (good_ctime w d) backups
            \<and> map e_path es = map (path_join d) (filter (good_ctime w d) backups)"
  using assms
proof (induction backups)
  case Nil
  then show ?case by simp
next
  case (Cons name names)
  then obtain es where es: "scan_entries w d base names = Inr es"
    "map e_name es = filter (good_ctime w d) names"
    "map e_path es = map (path_join d) (filter (good_ctime w d) names)"
    by auto
  show ?case
  proof (cases "ctimes w (path_join d name)")
    case (Inl e)
    then have "is_OSError e" using Cons.prems by simp
    moreover have "\<not> good_ctime w d name" using Inl by (simp add: good_ctime_def)
    ultimately show ?thesis using Inl es by simp
  next
    case (Inr x)
    then have "good_ctime w d name" by (simp add: good_ctime_def)
    then show ?thesis using Inr es by (cases x) simp
  qed
qed

lemma length_sort_entries: "length (sort_entries es) = length es"
  by (simp add: sort_entries_def)

lemma set_sort_entries: "set (sort_entries es) = set es"
  by (simp add: sort_entries_def)

lemma sort_entries_descending:
  "sorted (rev (map e_timestamp (sort_entries es)))"
  by (simp add: sort_entries_def rev_map[symmetric])

lemma length_filter_split:
  "length (filter P xs) = length xs - length (filter (\<lambda>x. \<not> P x) xs)"
  using sum_length_filter_compl[of P xs] by simp

lemma make_rows_paths:
  assumes "length dcs = length es" "length tls = length es"
  shows "map r_path (make_rows rm es dcs tls) = map e_path es"
  by (rule nth_equalityI) (simp_all add: length_make_rows nth_make_rows assms)

lemma rows_paths:
  "map r_path (bv_rows M w es) = map e_path es" "map r_path (dve_rows M w es) = map e_path es"
  by (simp_all add: bv_rows_def dve_rows_def make_rows_paths length_diff_counts length_total_lines)

lemma bv_sync_Nil: "bv_sync w [] = w"
  by (simp add: bv_sync_def)

lemma rows_Nil: "bv_rows M w [] = []" "dve_rows M w [] = []"
  by (simp_all add: bv_rows_def dve_rows_def make_rows_def diff_counts_def total_lines_def)

lemma sort_entries_Nil: "sort_entries [] = []"
  by (simp add: sort_entries_def)

lemma bv_load_result:
  assumes "batch_file_name v = Some batch_file" "path_exists w (home_directory v)"
    and "list_backups w (home_directory v) (bv_get_base_name (basename batch_file)) = Inr backups"
    and "scan_entries w (home_directory v) (bv_get_base_name (basename batch_file)) backups = Inr es"
  shows "bv_load_backups_from_name M w v
         = Inr (bv_sync w (map e_path (sort_entries es)),
                v\<lparr>tree := bv_rows M (bv_sync w (map e_path (sort_entries es))) (sort_entries es)\<rparr>)"
proof (cases "backups = []")
  case True
  then have "es = []" using assms(4) by simp
  then show ?thesis
    using assms(1-3) True
    by (simp add: bv_load_backups_from_name_def bv_sync_Nil rows_Nil sort_entries_Nil)
next
  case False
  then show ?thesis
    using assms by (simp add: bv_load_backups_from_name_def Let_def)
qed

lemma dve_load_result:
  assumes "backup_directory x \<noteq> []" "isdir w (backup_directory x)"
    and "list_backups w (backup_directory x) (dve_get_base_name filename) = Inr backups"
    and "scan_entries w (backup_directory x) (dve_get_base_name filename) backups = Inr es"
  shows "dve_load_versions M w x (Some filename)
         = Inr (x\<lparr>version_tree := dve_rows M w (sort_entries es)\<rparr>)"
proof (cases "backups = []")
  case True
  then have "es = []" using assms(4) by simp
  then show ?thesis
    using assms(1-3) True
    by (simp add: dve_load_versions_def rows_Nil sort_entries_Nil)
next
  case False
  then show ?thesis
    using assms by (simp add: dve_load_versions_def Let_def)
qed

lemma scanned_rows:
  assumes "map e_path es = map (path_join d) (filter (good_ctime w d) backups)"
  shows "set (map e_path (sort_entries es)) = path_join d ` {n \<in> set backups. good_ctime w d n}"
    and "length (sort_entries es) = length backups - length (filter (\<lambda>n. \<not> good_ctime w d n) backups)"
proof -
  have "set (map e_path (sort_entries es)) = set (map e_path es)"
    by (simp only: set_map set_sort_entries)
  also have "\<dots> = set (map (path_join d) (filter (good_ctime w d) backups))"
    by (simp only: assms)
  also have "\<dots> = path_join d ` {n \<in> set backups. good_ctime w d n}"
    by simp
  finally show "set (map e_path (sort_entries es)) = path_join d ` {n \<in> set backups. good_ctime w d n}" .
  have "length es = length (filter (good_ctime w d) backups)"
    using arg_cong[OF assms, of length] by simp
  then show "length (sort_entries es) = length backups - length (filter (\<lambda>n. \<not> good_ctime w d n) backups)"
    using length_filter_split[of "good_ctime w d" backups] by (simp add: length_sort_entries)
qed

text \<open>
  Claim C7. Take a directory whose listing succeeds and let every failure to read the
  creation time of a listed backup be an \<open>OSError\<close>. Then either program returns
  normally, the rows it shows are those of exactly the backups whose creation time can
  be read, and their number is the number of candidates less the number of bad files.
\<close>

theorem unreadable_ctime_skipped:
  assumes "\<forall>name\<in>set backups. \<forall>e. ctimes w (path_join d name) = Inl e \<longrightarrow> is_OSError e"
  shows "(batch_file_name v = Some batch_file \<and> home_directory v = d \<and> path_exists w d
          \<and> list_backups w d (bv_get_base_name (basename batch_file)) = Inr backups
        \<longrightarrow> (\<exists>w' v'. bv_load_backups_from_name M w v = Inr (w', v')
              \<and> set (map r_path (tree v')) = path_join d ` {n \<in> set backups. good_ctime w d n}
              \<and> length (tree v')
                  = length backups - length (filter (\<lambda>n. \<not> good_ctime w d n) backups)))
      \<and> (backup_directory x = d \<and> d \<noteq> [] \<and> isdir w d
          \<and> list_backups w d (dve_get_base_name filename) = Inr backups
        \<longrightarrow> (\<exists>x'. dve_load_versions M w x (Some filename) = Inr x'
              \<and> set (map r_path (version_tree x')) = path_join d ` {n \<in> set backups. good_ctime w d n}
              \<and> length (version_tree x')
                  = length backups - length (filter (\<lambda>n. \<not> good_ctime w d n) backups)))"
proof (intro conjI impI)
  assume a: "batch_file_name v = Some batch_file \<and> home_directory v = d \<and> path_exists w d
          \<and> list_backups w d (bv_get_base_name (basename batch_file)) = Inr backups"
  let ?base = "bv_get_base_name (basename batch_file)"
  from scan_entries_skips[OF assms, of ?base] obtain es where
    es: "scan_entries w d ?base backups = Inr es"
    "map e_path es = map (path_join d) (filter (good_ctime w d) backups)" by blast
  let ?w' = "bv_sync w (map e_path (sort_entries es))"
  let ?v' = "v\<lparr>tree := bv_rows M ?w' (sort_entries es)\<rparr>"
  have r: "bv_load_backups_from_name M w v = Inr (?w', ?v')"
    using a es(1) by (intro bv_load_result[of v batch_file w backups es M]) simp_all
  have "map r_path (tree ?v') = map e_path (sort_entries es)"
    by (simp add: rows_paths)
  then have "set (map r_path (tree ?v')) = path_join d ` {n \<in> set backups. good_ctime w d n}"
    by (simp only: scanned_rows(1)[OF es(2)])
  moreover have "length (tree ?v') = length backups - length (filter (\<lambda>n. \<not> good_ctime w d n) backups)"
    using scanned_rows(2)[OF es(2)] by (simp add: length_rows)
  ultimately show "\<exists>w' v'. bv_load_backups_from_name M w v = Inr (w', v')
              \<and> set (map r_path (tree v')) = path_join d ` {n \<in> set backups. good_ctime w d n}
              \<and> length (tree v')
                  = length backups - length (filter (\<lambda>n. \<not> good_ctime w d n) backups)"
    using r by blast
next
  assume a: "backup_directory x = d \<and> d \<noteq> [] \<and> isdir w d
          \<and> list_backups w d (dve_get_base_name filename) = Inr backups"
  let ?base = "dve_get_base_name filename"
  from scan_entries_skips[OF assms, of ?base] obtain es where
    es: "scan_entries w d ?base backups = Inr es"
    "map e_path es = map (path_join d) (filter (good_ctime w d) backups)" by blast
  let ?x' = "x\<lparr>version_tree := dve_rows M w (sort_entries es)\<rparr>"
  have r: "dve_load_versions M w x (Some filename) = Inr ?x'"
    using a es(1) by (intro dve_load_result[of x w filename backups es M]) simp_all
  have "map r_path (version_tree ?x') = map e_path (sort_entries es)"
    by (simp add: rows_paths)
  then have "set (map r_path (version_tree ?x')) = path_join d ` {n \<in> set backups. good_ctime w d n}"
    by (simp only: scanned_rows(1)[OF es(2)])
  moreover have "length (version_tree ?x') = length backups - length (filter (\<lambda>n. \<not> good_ctime w d n) backups)"
    using scanned_rows(2)[OF es(2)] by (simp add: length_rows)
  ultimately show "\<exists>x'. dve_load_versions M w x (Some filename) = Inr x'
              \<and> set (map r_path (version_tree x')) = path_join d ` {n \<in> set backups. good_ctime w d n}
              \<and> length (version_tree x')
                  = length backups - length (filter (\<lambda>n. \<not> good_ctime w d n) backups)"
    using r by blast
qed

theorem unreadable_ctime_skipped_witness:
  "(\<exists>w' v'. bv_load_backups_from_name difflib_cases w_report v_report = Inr (w', v')
       \<and> length (tree v') = 2)
   \<and> (\<exists>x'. dve_load_versions difflib_cases w_report x_report (Some ''report.txt'') = Inr x'
       \<and> length (version_tree x') = 2)"
proof -
  have c: "ctimes w_report (path_join ''C:/bk'' ''report.txt.2024-01-01_090000.bak'') = Inr (1704099600, ''mon 01/01/2024 09:00am'')"
    "ctimes w_report (path_join ''C:/bk'' ''report.txt.2024-01-02_100000.bak'') = Inr (1704189600, ''tue 01/02/2024 10:00am'')"
    "ctimes w_report (path_join ''C:/bk'' ''report.txt.2024-01-03_110000.bak'') = Inl PermissionError"
    by (simp_all add: w_report_def w_empty_def bk_def path_join_def)
  have p: "\<forall>name\<in>set report_backups. \<forall>e. ctimes w_report (path_join ''C:/bk'' name) = Inl e \<longrightarrow> is_OSError e"
    unfolding report_backups_def using c by (simp add: is_OSError_def)
  have l1: "list_backups w_report ''C:/bk'' (bv_get_base_name (basename ''C:/bk/report.txt'')) = Inr report_backups"
    by code_simp
  have l2: "list_backups w_report ''C:/bk'' (dve_get_base_name ''report.txt'') = Inr report_backups"
    by code_simp
  have s: "batch_file_name v_report = Some ''C:/bk/report.txt''" "home_directory v_report = ''C:/bk''"
    "path_exists w_report ''C:/bk''" "backup_directory x_report = ''C:/bk''" "isdir w_report ''C:/bk''"
    by (simp_all add: v_report_def x_report_def path_exists_def w_report_def w_empty_def)
  have n: "length report_backups - length (filter (\<lambda>n. \<not> good_ctime w_report ''C:/bk'' n) report_backups) = 2"
    unfolding report_backups_def using c by (simp add: good_ctime_def)
  show ?thesis
    using unreadable_ctime_skipped[OF p, of v_report "''C:/bk/report.txt''" difflib_cases x_report "''report.txt''"]
      l1 l2 s unfolding n by blast
qed

section \<open>Properties of the change descriptors\<close>

lemma in_concat_map: "x \<in> set (concat (map f xs)) \<Longrightarrow> \<exists>y\<in>set xs. x \<in> set (f y)"
  by (induction xs) auto

lemma opcode_lines_kinds:
  "x \<in> set (opcode_lines a b oc) \<Longrightarrow> fst x \<noteq> Header \<and> plus_or_minus (snd x) = signed_kind x"
  by (cases oc) (auto simp: plus_or_minus_def signed_kind_def startswith_def split: if_splits)

lemma hunk_lines_kinds:
  "x \<in> set (hunk_lines a b h) \<Longrightarrow> fst x \<noteq> Header \<and> plus_or_minus (snd x) = signed_kind x"
proof (cases h)
  case (Pair first others)
  assume x: "x \<in> set (hunk_lines a b h)"
  obtain t1 f1 f2 f3 f4 where f: "first = (t1, f1, f2, f3, f4)" by (cases first)
  obtain t2 l1 l2 l3 l4 where l: "last (first # others) = (t2, l1, l2, l3, l4)"
    by (cases "last (first # others)")
  have "hunk_lines a b h =
      (Range, ''@@ -'' @ format_range_unified f1 l2 @ '' +'' @ format_range_unified f3 l4 @ '' @@'')
      # concat (map (opcode_lines a b) (first # others))"
    using Pair f l by (simp del: last.simps opcode_lines.simps)
  then have "x = (Range, ''@@ -'' @ format_range_unified f1 l2 @ '' +'' @ format_range_unified f3 l4 @ '' @@'')
      \<or> x \<in> set (concat (map (opcode_lines a b) (first # others)))"
    using x by (simp del: opcode_lines.simps)
  then consider "x = (Range, ''@@ -'' @ format_range_unified f1 l2 @ '' +'' @ format_range_unified f3 l4 @ '' @@'')"
    | oc where "x \<in> set (opcode_lines a b oc)"
    using in_concat_map[of x "opcode_lines a b" "first # others"] by blast
  then show ?thesis
  proof cases
    case 1
    then show ?thesis by (simp add: plus_or_minus_def signed_kind_def startswith_def)
  next
    case 2
    then show ?thesis by (rule opcode_lines_kinds)
  qed
qed

lemma hunks_kinds:
  "x \<in> set (concat (map (hunk_lines a b) hs)) \<Longrightarrow> fst x \<noteq> Header \<and> plus_or_minus (snd x) = signed_kind x"
proof -
  assume "x \<in> set (concat (map (hunk_lines a b) hs))"
  then obtain h where "x \<in> set (hunk_lines a b h)"
    using in_concat_map[of x "hunk_lines a b" hs] by blast
  then show ?thesis by (rule hunk_lines_kinds)
qed

lemma filter_cong_count:
  "(\<And>x. x \<in> set xs \<Longrightarrow> P x = Q x) \<Longrightarrow> length (filter P xs) = length (filter Q xs)"
  by (induction xs) auto

lemma count_signed_hunks:
  "length (filter plus_or_minus (map snd (concat (map (hunk_lines a b) hs))))
   = length (filter (\<lambda>(k, line). k = Removal \<or> k = Addition) (concat (map (hunk_lines a b) hs)))"
proof -
  let ?ks = "concat (map (hunk_lines a b) hs)"
  have "length (filter plus_or_minus (map snd ?ks)) = length (filter (\<lambda>x. plus_or_minus (snd x)) ?ks)"
    by (simp add: filter_map comp_def)
  also have "\<dots> = length (filter (\<lambda>(k, line). k = Removal \<or> k = Addition) ?ks)"
  proof (rule filter_cong_count)
    fix x assume "x \<in> set ?ks"
    from hunks_kinds[OF this] show "plus_or_minus (snd x) = (case x of (k, line) \<Rightarrow> k = Removal \<or> k = Addition)"
      by (cases x) (auto simp: signed_kind_def)
  qed
  finally show ?thesis .
qed

lemma bv_change_count_law:
  "bv_change_count (unified_diff M a b)
   = (if M a b = [] then 0 else max 0 (int (changed_lines M a b) - 1))"
proof (cases "M a b")
  case Nil
  then show ?thesis
    by (simp add: bv_change_count_def unified_diff_def unified_diff_kinds_def)
next
  case (Cons g gs)
  let ?ks = "concat (map (hunk_lines a b) (g # gs))"
  have k: "unified_diff_kinds M a b = (Header, ''--- '') # (Header, ''+++ '') # ?ks"
    using Cons by (simp add: unified_diff_kinds_def)
  have "length (filter plus_or_minus (unified_diff M a b))
        = 2 + length (filter plus_or_minus (map snd ?ks))"
    unfolding unified_diff_def k by (simp add: plus_or_minus_def startswith_def)
  also have "\<dots> = 2 + length (filter (\<lambda>(k, line). k = Removal \<or> k = Addition) ?ks)"
    by (simp only: count_signed_hunks)
  also have "\<dots> = 2 + changed_lines M a b"
    unfolding changed_lines_def k by simp
  finally have "length (filter plus_or_minus (unified_diff M a b)) = 2 + changed_lines M a b" .
  then have "bv_change_count (unified_diff M a b) = max 0 (int (2 + changed_lines M a b) - 3)"
    unfolding bv_change_count_def plus_or_minus_def[abs_def] by simp
  then show ?thesis using Cons by simp
qed

lemma unified_diff_Nil: "M a b = [] \<Longrightarrow> unified_diff M a b = []"
  by (simp add: unified_diff_def unified_diff_kinds_def)

lemma str_int_0: "str_int 0 = ''0''"
  by (simp add: str_int_def str_nat.simps)

lemma dve_change_count_law:
  "dve_change_count (unified_diff M a b)
   = int (length (filter (\<lambda>(k, line). (k = Removal \<or> k = Addition)
                             \<and> \<not> (startswith line ''+++'' \<or> startswith line ''---''))
                   (unified_diff_kinds M a b)))"
proof -
  let ?T = "\<lambda>line. startswith line ''+++'' \<or> startswith line ''---''"
  let ?P = "\<lambda>x. plus_or_minus (snd x) \<and> \<not> ?T (snd x)"
  let ?Q = "\<lambda>(k, line). (k = Removal \<or> k = Addition) \<and> \<not> ?T line"
  have hunks: "length (filter ?P (concat (map (hunk_lines a b) hs)))
             = length (filter ?Q (concat (map (hunk_lines a b) hs)))" for hs
  proof (rule filter_cong_count)
    fix x assume "x \<in> set (concat (map (hunk_lines a b) hs))"
    from hunks_kinds[OF this] show "?P x = ?Q x"
      by (cases x) (auto simp: signed_kind_def)
  qed
  have "length (filter ?P (unified_diff_kinds M a b)) = length (filter ?Q (unified_diff_kinds M a b))"
  proof (cases "M a b")
    case Nil
    then show ?thesis by (simp add: unified_diff_kinds_def)
  next
    case (Cons g gs)
    then have k: "unified_diff_kinds M a b
        = (Header, ''--- '') # (Header, ''+++ '') # concat (map (hunk_lines a b) (g # gs))"
      by (simp add: unified_diff_kinds_def)
    show ?thesis unfolding k using hunks[of "g # gs"]
      by (simp add: startswith_def plus_or_minus_def del: concat.simps list.map)
  qed
  moreover have "dve_change_count (unified_diff M a b)
      = int (length (filter ?P (unified_diff_kinds M a b)))"
    unfolding dve_change_count_def unified_diff_def plus_or_minus_def
    by (simp add: filter_map comp_def)
  ultimately show ?thesis by simp
qed

lemma length_filter_conj_le:
  "length (filter (\<lambda>x. P x \<and> Q x) xs) \<le> length (filter P xs)"
  by (induction xs) auto

lemma dve_change_count_le:
  "dve_change_count (unified_diff M a b) \<le> int (changed_lines M a b)"
proof -
  have "length (filter (\<lambda>(k, line). (k = Removal \<or> k = Addition)
                             \<and> \<not> (startswith line ''+++'' \<or> startswith line ''---''))
                   (unified_diff_kinds M a b))
        \<le> length (filter (\<lambda>(k, line). k = Removal \<or> k = Addition) (unified_diff_kinds M a b))"
    using length_filter_conj_le[of "\<lambda>x. fst x = Removal \<or> fst x = Addition"
        "\<lambda>x. \<not> (startswith (snd x) ''+++'' \<or> startswith (snd x) ''---'')" "unified_diff_kinds M a b"]
    by (simp add: case_prod_unfold)
  then show ?thesis unfolding dve_change_count_law changed_lines_def by simp
qed

lemma no_change_counts:
  assumes "changed_lines M a b = 0"
  shows "bv_change_count (unified_diff M a b) = 0" "dve_change_count (unified_diff M a b) = 0"
proof -
  show "bv_change_count (unified_diff M a b) = 0"
    using assms by (simp add: bv_change_count_law)
  show "dve_change_count (unified_diff M a b) = 0"
    using assms dve_change_count_le[of M a b] dve_change_count_nonneg[of "unified_diff M a b"] by simp
qed

lemma diff_count_same:
  assumes "open_read w curr_path = Inr c" "open_read w next_path = Inr c"
    and "changed_lines M (readlines c) (readlines c) = 0"
  shows "diff_count bv_change_count M w curr_path next_path = ''0 lines''"
    and "diff_count dve_change_count M w curr_path next_path = ''0 lines''"
  using assms(1,2) no_change_counts[OF assms(3)]
  by (simp_all add: diff_count_def Let_def change_sign_def str_int_0)

text \<open>
  Claim C10. Take two consecutive entries whose files are read without error and hold
  the same content, and let the diff of that content against itself have no changed
  line, as a diff of \<open>SequenceMatcher\<close> has for equal sequences. Then the change
  descriptor of the newer entry is \<open>0 lines\<close>, without a sign, in both programs.
\<close>

theorem identical_files_zero_lines:
  assumes "i + 1 < length es"
    and "open_read w (e_path (es ! i)) = Inr c"
    and "open_read w (e_path (es ! (i + 1))) = Inr c"
    and "changed_lines M (readlines c) (readlines c) = 0"
  shows "r_diff_count (bv_rows M w es ! i) = ''0 lines''
       \<and> r_diff_count (dve_rows M w es ! i) = ''0 lines''"
proof -
  have i: "i < length es" "i \<noteq> length es - 1" using assms(1) by simp_all
  show ?thesis
    using i diff_count_same[of w "e_path (es ! i)" c "e_path (es ! (i + 1))" M] assms(2,3,4)
    by (simp add: bv_rows_def dve_rows_def nth_make_rows length_diff_counts
        length_total_lines nth_diff_counts)
qed

theorem identical_files_zero_lines_witness:
  "r_diff_count (bv_rows difflib_cases w_report es_memo ! 0) = ''0 lines''
   \<and> r_diff_count (dve_rows difflib_cases w_report es_memo ! 0) = ''0 lines''"
proof -
  have n: "0 + 1 < length es_memo"
    by (simp add: es_memo_def)
  have r: "open_read w_report (e_path (es_memo ! 0)) = Inr (''m'' @ [newline])"
    "open_read w_report (e_path (es_memo ! (0 + 1))) = Inr (''m'' @ [newline])"
    by code_simp+
  have m: "changed_lines difflib_cases (readlines (''m'' @ [newline])) (readlines (''m'' @ [newline])) = 0"
    by code_simp
  show ?thesis
    using identical_files_zero_lines[of 0 es_memo w_report "''m'' @ [newline]" difflib_cases] n r m
    by blast
qed

text \<open>
  Claim C1 at two concrete sets. The claim gives \<open>+1 lines\<close> for a backup that adds one
  line to the older one, and \<open>-1 lines\<close> for a backup that drops the line \<open>-- x\<close> of
  the older one: one changed line each. \<open>BackupViewer\<close> shows \<open>+0 lines\<close> for the
  first, \<open>DocumentVersionExplorer\<close> shows \<open>-0 lines\<close> for the second.
\<close>

theorem changed_line_count_divergence:
  "changed_lines difflib_cases [''a'' @ [newline], ''b'' @ [newline]]
       [''a'' @ [newline], ''b'' @ [newline], ''c'' @ [newline]] = 1
   \<and> map r_diff_count (bv_rows difflib_cases w_report es_report) = [''+0 lines'', ''N/A'']
   \<and> changed_lines difflib_cases [''-- x'' @ [newline], ''k'' @ [newline]] [''k'' @ [newline]] = 1
   \<and> map r_diff_count (dve_rows difflib_cases w_report es_notes) = [''-0 lines'', ''N/A'']"
  by code_simp

section \<open>Properties of the audit streams\<close>

lemma bv_read_meta_audit_eq:
  "bv_read_meta_audit w p =
     (case open_read w (p @ '':meta_audit'') of Inr t \<Rightarrow> audit_lines t | Inl e \<Rightarrow> [])"
  unfolding bv_read_meta_audit_def
  by (simp add: bv_read_meta_audit_from.simps[of w p 0] bv_read_meta_audit_from.simps[of w p "Suc 0"]
      bv_read_meta_audit_from.simps[of w p "Suc (Suc 0)"] max_retries_def numeral_3_eq_3 split: sum.splits)

lemma dve_read_meta_audit_eq:
  "dve_read_meta_audit w p = bv_read_meta_audit w p"
  unfolding dve_read_meta_audit_def bv_read_meta_audit_eq
  by (auto simp: dve_read_meta_audit_from.simps[of w p "Suc 0"] dve_read_meta_audit_from.simps[of w p "Suc (Suc 0)"]
      dve_read_meta_audit_from.simps[of w p "Suc (Suc (Suc 0))"] max_retries_def numeral_3_eq_3 Let_def path_exists_def open_read_def
      split: sum.splits option.splits)

lemma bv_append_loop_eq:
  "bv_append_loop w p new 0 =
     (case open_append w (p @ '':meta_audit'') (entry_lines new) of Inr w' \<Rightarrow> w' | Inl e \<Rightarrow> w)"
  by (simp add: bv_append_loop.simps[of w p new 0] bv_append_loop.simps[of w p new "Suc 0"]
      bv_append_loop.simps[of w p new "Suc (Suc 0)"] max_retries_def numeral_3_eq_3 split: sum.splits)

lemma dve_append_loop_eq:
  "dve_append_loop w p new (Suc 0) =
     (if \<not> path_exists w p then w
      else case open_append w (p @ '':meta_audit'') (entry_lines new) of Inr w' \<Rightarrow> w' | Inl e \<Rightarrow> w)"
  by (simp add: dve_append_loop.simps[of w p new "Suc 0"] dve_append_loop.simps[of w p new "Suc (Suc 0)"]
      dve_append_loop.simps[of w p new "Suc (Suc (Suc 0))"] max_retries_def numeral_3_eq_3 split: sum.splits)

lemma dve_append_meta_audit_eq:
  "dve_append_meta_audit w p es = (if path_exists w p then bv_append_meta_audit w p es else w)"
  by (simp add: dve_append_meta_audit_def bv_append_meta_audit_def dve_read_meta_audit_eq
      dve_append_loop_eq bv_append_loop_eq Let_def)

lemma isspace_newline: "isspace newline"
  by (simp add: isspace_def newline_def)

lemma readlines_Nil_iff: "readlines t = [] \<longleftrightarrow> t = []"
  by (cases t) (auto split: list.splits)

lemma readlines_line:
  "newline \<notin> set l \<Longrightarrow> readlines (l @ newline # rest) = (l @ [newline]) # readlines rest"
  by (induction l) auto

lemma readlines_append:
  "terminated c \<Longrightarrow> readlines (c @ d) = readlines c @ readlines d"
proof (induction c)
  case Nil
  then show ?case by simp
next
  case (Cons x cs)
  show ?case
  proof (cases "x = newline")
    case True
    have "terminated cs" using Cons.prems by (auto simp: terminated_def split: if_splits)
    then show ?thesis using True Cons.IH by simp
  next
    case False
    then have cs: "cs \<noteq> []" "terminated cs"
      using Cons.prems by (auto simp: terminated_def split: if_splits)
    then obtain l ls where l: "readlines cs = l # ls"
      using readlines_Nil_iff[of cs] by (cases "readlines cs") auto
    then show ?thesis using False Cons.IH[OF cs(2)] by simp
  qed
qed

lemma readlines_entry_lines:
  "\<forall>e\<in>set es. newline \<notin> set e \<Longrightarrow> readlines (entry_lines es) = map (\<lambda>e. e @ [newline]) es"
proof (induction es)
  case Nil
  then show ?case by (simp add: entry_lines_def)
next
  case (Cons e es)
  then have "readlines (e @ newline # entry_lines es) = (e @ [newline]) # readlines (entry_lines es)"
    by (intro readlines_line) simp
  then show ?case using Cons by (simp add: entry_lines_def)
qed

lemma terminated_entry_lines: "terminated (entry_lines es)"
  by (induction es) (auto simp: entry_lines_def terminated_def)

lemma terminated_append: "terminated c \<Longrightarrow> terminated d \<Longrightarrow> terminated (c @ d)"
  by (cases "d = []") (auto simp: terminated_def)

lemma strip_newline: "strip (e @ [newline]) = strip e"
proof (cases "\<forall>c\<in>set e. isspace c")
  case True
  then have "\<forall>c\<in>set (e @ [newline]). isspace c"
    by (simp add: isspace_newline)
  with True have d: "dropWhile isspace e = []" "dropWhile isspace (e @ [newline]) = []"
    unfolding dropWhile_eq_Nil_conv by blast+
  show ?thesis unfolding strip_def by (simp only: d)
next
  case False
  then obtain x where "x \<in> set e" "\<not> isspace x" by blast
  then have "dropWhile isspace (e @ [newline]) = dropWhile isspace e @ [newline]"
    by simp
  then show ?thesis by (simp add: strip_def isspace_newline)
qed

lemma audit_lines_entry_lines:
  assumes "\<forall>e\<in>set es. newline \<notin> set e"
  shows "audit_lines (entry_lines es) = map strip (filter (\<lambda>e. strip e \<noteq> []) es)"
  unfolding audit_lines_def readlines_entry_lines[OF assms]
  by (simp add: filter_map comp_def strip_newline)

lemma audit_lines_append:
  assumes "terminated c" "\<forall>e\<in>set es. newline \<notin> set e"
  shows "audit_lines (c @ entry_lines es) = audit_lines c @ map strip (filter (\<lambda>e. strip e \<noteq> []) es)"
proof -
  have "audit_lines (c @ entry_lines es) = audit_lines c @ audit_lines (entry_lines es)"
    by (simp add: audit_lines_def readlines_append[OF assms(1)])
  then show ?thesis by (simp add: audit_lines_entry_lines[OF assms(2)])
qed

lemma set_strip: "set (strip s) \<subseteq> set s"
proof -
  have "set (strip s) \<subseteq> set (dropWhile isspace s)"
    unfolding strip_def using set_dropWhileD[of _ isspace "rev (dropWhile isspace s)"] by auto
  then show ?thesis using set_dropWhileD[of _ isspace s] by blast
qed

lemma readlines_inner:
  "l \<in> set (readlines t) \<Longrightarrow> l \<noteq> [] \<and> newline \<notin> set (butlast l)"
proof (induction t arbitrary: l rule: readlines.induct)
  case 1
  then show ?case by simp
next
  case (2 c cs)
  show ?case
  proof (cases "c = newline")
    case True
    then show ?thesis using 2 by auto
  next
    case False
    show ?thesis
    proof (cases "readlines cs")
      case Nil
      then show ?thesis using 2 False by auto
    next
      case (Cons l' ls)
      then have "l = c # l' \<or> l \<in> set ls" using 2(3) False by simp
      moreover have "l' \<noteq> [] \<and> newline \<notin> set (butlast l')" using 2(2)[OF False, of l'] Cons by simp
      moreover have "l \<in> set ls \<Longrightarrow> l \<noteq> [] \<and> newline \<notin> set (butlast l)"
        using 2(2)[OF False, of l] Cons by simp
      ultimately show ?thesis using False by auto
    qed
  qed
qed

lemma strip_line_no_newline:
  assumes "l \<in> set (readlines t)"
  shows "newline \<notin> set (strip l)"
proof -
  from readlines_inner[OF assms] have l: "l \<noteq> []" "newline \<notin> set (butlast l)" by simp_all
  show ?thesis
  proof (cases "last l = newline")
    case True
    then have "l = butlast l @ [newline]" using l(1) by (metis append_butlast_last_id)
    then have "strip l = strip (butlast l)" using strip_newline[of "butlast l"] by simp
    then show ?thesis using set_strip[of "butlast l"] l(2) by auto
  next
    case False
    then have "newline \<notin> set l"
      using l append_butlast_last_id[of l] by (metis Un_iff empty_iff list.set(1,2) insert_iff set_append)
    then show ?thesis using set_strip[of l] by auto
  qed
qed

lemma audit_lines_clean:
  assumes "e \<in> set (audit_lines t)"
  shows "strip e = e \<and> e \<noteq> [] \<and> newline \<notin> set e"
proof -
  from assms obtain l where l: "l \<in> set (readlines t)" "strip l \<noteq> []" "e = strip l"
    by (auto simp: audit_lines_def)
  then show ?thesis using strip_line_no_newline[OF l(1)] by (simp add: strip_strip)
qed

lemma bv_read_meta_audit_clean:
  "e \<in> set (bv_read_meta_audit w p) \<Longrightarrow> strip e = e \<and> e \<noteq> [] \<and> newline \<notin> set e"
  unfolding bv_read_meta_audit_eq using audit_lines_clean by (auto split: sum.splits)

lemma open_append_frame:
  assumes "open_append w a t = Inr w'"
  shows "read_errors w' = read_errors w" "write_errors w' = write_errors w" "isdir w' = isdir w"
    "dirs w' = dirs w" "ctimes w' = ctimes w"
    "\<And>q. q \<noteq> a \<Longrightarrow> texts w' q = texts w q"
    "\<And>q. texts w q \<noteq> None \<Longrightarrow> texts w' q \<noteq> None"
    "texts w' a = Some ((case texts w a of None \<Rightarrow> [] | Some c \<Rightarrow> c) @ t)"
  using assms by (auto simp: open_append_def split: option.splits)

lemma bv_append_meta_audit_cases:
  "bv_append_meta_audit w p es = w
   \<or> (\<exists>new. new = filter (\<lambda>e. strip e \<noteq> [] \<and> strip e \<notin> set (bv_read_meta_audit w p)) es
         \<and> new \<noteq> []
         \<and> open_append w (p @ '':meta_audit'') (entry_lines new) = Inr (bv_append_meta_audit w p es))"
  by (auto simp: bv_append_meta_audit_def Let_def bv_append_loop_eq split: sum.splits)

lemma bv_append_meta_audit_frame:
  "read_errors (bv_append_meta_audit w p es) = read_errors w"
  "write_errors (bv_append_meta_audit w p es) = write_errors w"
  "isdir (bv_append_meta_audit w p es) = isdir w"
  "q \<noteq> p @ '':meta_audit'' \<Longrightarrow> texts (bv_append_meta_audit w p es) q = texts w q"
  "texts w q \<noteq> None \<Longrightarrow> texts (bv_append_meta_audit w p es) q \<noteq> None"
proof -
  let ?w' = "bv_append_meta_audit w p es"
  from bv_append_meta_audit_cases[of w p es]
  consider "?w' = w" | new where "open_append w (p @ '':meta_audit'') (entry_lines new) = Inr ?w'"
    by blast
  then have "read_errors ?w' = read_errors w \<and> write_errors ?w' = write_errors w
      \<and> isdir ?w' = isdir w
      \<and> (q \<noteq> p @ '':meta_audit'' \<longrightarrow> texts ?w' q = texts w q)
      \<and> (texts w q \<noteq> None \<longrightarrow> texts ?w' q \<noteq> None)"
  proof cases
    case 1
    then show ?thesis by simp
  next
    case 2
    from open_append_frame(1,2,3,6,7)[OF 2] show ?thesis by simp
  qed
  then show "read_errors ?w' = read_errors w" "write_errors ?w' = write_errors w"
    "isdir ?w' = isdir w"
    "q \<noteq> p @ '':meta_audit'' \<Longrightarrow> texts ?w' q = texts w q"
    "texts w q \<noteq> None \<Longrightarrow> texts ?w' q \<noteq> None"
    by simp_all
qed

lemma path_exists_append:
  "path_exists w q \<Longrightarrow> path_exists (bv_append_meta_audit w p es) q"
  by (auto simp: path_exists_def bv_append_meta_audit_frame)


lemma bv_read_readable:
  assumes "read_errors w (p @ '':meta_audit'') = None"
  shows "bv_read_meta_audit w p
         = audit_lines (case texts w (p @ '':meta_audit'') of None \<Rightarrow> [] | Some c \<Rightarrow> c)"
  using assms
  by (simp add: bv_read_meta_audit_eq open_read_def audit_lines_def split: option.splits)

lemma bv_append_meta_audit_read:
  assumes r: "read_errors w (p @ '':meta_audit'') = None"
    and wr: "write_errors w (p @ '':meta_audit'') = None"
    and t: "terminated_stream w p"
    and nl: "\<forall>e\<in>set es. newline \<notin> set e"
  shows "set (bv_read_meta_audit (bv_append_meta_audit w p es) p)
         = set (bv_read_meta_audit w p) \<union> strip ` {e \<in> set es. strip e \<noteq> []}"
    and "terminated_stream (bv_append_meta_audit w p es) p"
proof -
  let ?a = "p @ '':meta_audit''"
  let ?c0 = "case texts w ?a of None \<Rightarrow> [] | Some c \<Rightarrow> c"
  let ?new = "filter (\<lambda>e. strip e \<noteq> [] \<and> strip e \<notin> set (bv_read_meta_audit w p)) es"
  let ?w' = "bv_append_meta_audit w p es"
  have c0: "terminated ?c0"
    using t by (auto simp: terminated_stream_def terminated_def split: option.splits)
  have both: "set (bv_read_meta_audit ?w' p)
         = set (bv_read_meta_audit w p) \<union> strip ` {e \<in> set es. strip e \<noteq> []}
       \<and> terminated_stream ?w' p"
  proof (cases "?new = []")
    case True
    then have w': "?w' = w" by (simp add: bv_append_meta_audit_def Let_def)
    have "strip ` {e \<in> set es. strip e \<noteq> []} \<subseteq> set (bv_read_meta_audit w p)"
      using True by (auto simp: filter_empty_conv)
    then show ?thesis using w' t by auto
  next
    case False
    have "open_append w ?a (entry_lines ?new) = Inr (w\<lparr>texts := (texts w)(?a \<mapsto> ?c0 @ entry_lines ?new)\<rparr>)"
      using wr by (simp add: open_append_def)
    then have w': "?w' = w\<lparr>texts := (texts w)(?a \<mapsto> ?c0 @ entry_lines ?new)\<rparr>"
      using False by (cases "es = []") (simp_all add: bv_append_meta_audit_def Let_def bv_append_loop_eq)
    have nl': "\<forall>e\<in>set ?new. newline \<notin> set e" using nl by simp
    have "bv_read_meta_audit ?w' p = audit_lines (?c0 @ entry_lines ?new)"
      unfolding w' using r by (subst bv_read_readable) simp_all
    also have "\<dots> = audit_lines ?c0 @ map strip (filter (\<lambda>e. strip e \<noteq> []) ?new)"
      by (rule audit_lines_append[OF c0 nl'])
    also have "audit_lines ?c0 = bv_read_meta_audit w p"
      by (simp add: bv_read_readable[OF r])
    finally have "set (bv_read_meta_audit ?w' p)
        = set (bv_read_meta_audit w p) \<union> strip ` {e \<in> set es. strip e \<noteq> []}"
      by auto
    moreover have "terminated_stream ?w' p"
      unfolding w' by (simp add: terminated_stream_def terminated_append c0 terminated_entry_lines)
    ultimately show ?thesis by simp
  qed
  from both show "set (bv_read_meta_audit ?w' p)
         = set (bv_read_meta_audit w p) \<union> strip ` {e \<in> set es. strip e \<noteq> []}" by simp
  from both show "terminated_stream ?w' p" by simp
qed






lemma bv_read_meta_audit_cong:
  assumes "read_errors w' = read_errors w" "texts w' (q @ '':meta_audit'') = texts w (q @ '':meta_audit'')"
  shows "bv_read_meta_audit w' q = bv_read_meta_audit w q"
proof -
  have "open_read w' (q @ '':meta_audit'') = open_read w (q @ '':meta_audit'')"
    unfolding open_read_def assms by (rule refl)
  then show ?thesis by (simp only: bv_read_meta_audit_eq)
qed

lemma append_step:
  assumes clean: "\<forall>e\<in>set es. strip e = e \<and> e \<noteq> [] \<and> newline \<notin> set e"
    and p: "stream_ok w p" and q: "stream_ok w q"
  shows "stream_ok (bv_append_meta_audit w p es) q"
    and "set (bv_read_meta_audit (bv_append_meta_audit w p es) q)
         = set (bv_read_meta_audit w q) \<union> (if q = p then set es else {})"
proof -
  let ?w' = "bv_append_meta_audit w p es"
  have nl: "\<forall>e\<in>set es. newline \<notin> set e" using clean by blast
  have st: "strip ` {e \<in> set es. strip e \<noteq> []} = set es" using clean by force
  have pr: "read_errors w (p @ '':meta_audit'') = None" "write_errors w (p @ '':meta_audit'') = None"
    "terminated_stream w p" using p by (simp_all add: stream_ok_def)
  have both: "stream_ok ?w' q \<and> set (bv_read_meta_audit ?w' q)
         = set (bv_read_meta_audit w q) \<union> (if q = p then set es else {})"
  proof (cases "q = p")
    case True
    then show ?thesis
      using bv_append_meta_audit_read[OF pr nl] pr
      by (simp add: stream_ok_def bv_append_meta_audit_frame st)
  next
    case False
    then have "q @ '':meta_audit'' \<noteq> p @ '':meta_audit''" by simp
    then have tx: "texts ?w' (q @ '':meta_audit'') = texts w (q @ '':meta_audit'')"
      by (rule bv_append_meta_audit_frame(4))
    then have "bv_read_meta_audit ?w' q = bv_read_meta_audit w q"
      by (intro bv_read_meta_audit_cong) (simp_all add: bv_append_meta_audit_frame)
    then show ?thesis
      using False q tx by (simp add: stream_ok_def bv_append_meta_audit_frame terminated_stream_def)
  qed
  from both show "stream_ok ?w' q" by simp
  from both show "set (bv_read_meta_audit ?w' q)
         = set (bv_read_meta_audit w q) \<union> (if q = p then set es else {})" by simp
qed

lemma append_fold:
  assumes clean: "\<forall>e\<in>set es. strip e = e \<and> e \<noteq> [] \<and> newline \<notin> set e"
  shows "\<forall>p\<in>set ps. stream_ok w p \<Longrightarrow> stream_ok w q \<Longrightarrow>
    stream_ok (fold (\<lambda>p w'. bv_append_meta_audit w' p es) ps w) q
    \<and> set (bv_read_meta_audit (fold (\<lambda>p w'. bv_append_meta_audit w' p es) ps w) q)
        = set (bv_read_meta_audit w q) \<union> (if q \<in> set ps then set es else {})"
proof (induction ps arbitrary: w)
  case Nil
  then show ?case by simp
next
  case (Cons p ps)
  let ?w1 = "bv_append_meta_audit w p es"
  have p: "stream_ok w p" using Cons.prems(1) by simp
  have 1: "\<forall>r\<in>set ps. stream_ok ?w1 r"
    using append_step(1)[OF clean p] Cons.prems(1) by simp
  have 2: "stream_ok ?w1 q" using append_step(1)[OF clean p Cons.prems(2)] .
  have 3: "set (bv_read_meta_audit ?w1 q) = set (bv_read_meta_audit w q) \<union> (if q = p then set es else {})"
    using append_step(2)[OF clean p Cons.prems(2)] .
  from Cons.IH[OF 1 2] 3 show ?case by auto
qed

lemma fold_dve_append:
  "\<forall>p\<in>set ps. path_exists w p \<Longrightarrow>
   fold (\<lambda>p w'. dve_append_meta_audit w' p es) ps w = fold (\<lambda>p w'. bv_append_meta_audit w' p es) ps w"
proof (induction ps arbitrary: w)
  case Nil
  then show ?case by simp
next
  case (Cons p ps)
  then have "\<forall>r\<in>set ps. path_exists (bv_append_meta_audit w p es) r"
    by (simp add: path_exists_append)
  from Cons.IH[OF this] Cons.prems show ?case
    by (simp add: dve_append_meta_audit_eq)
qed

lemma bv_sync_merges:
  assumes "\<forall>p\<in>set ps. stream_ok w p" "p \<in> set ps"
  shows "set (bv_read_meta_audit (bv_sync w ps) p) = (\<Union>q\<in>set ps. set (bv_read_meta_audit w q))"
proof -
  let ?all = "concat (map (bv_read_meta_audit w) ps)"
  have all: "set ?all = (\<Union>q\<in>set ps. set (bv_read_meta_audit w q))" by simp
  have clean: "\<forall>e\<in>set ?all. strip e = e \<and> e \<noteq> [] \<and> newline \<notin> set e"
    using bv_read_meta_audit_clean unfolding all by blast
  have "set (bv_read_meta_audit (bv_sync w ps) p) = set (bv_read_meta_audit w p) \<union> set ?all"
    using append_fold[OF clean assms(1), of p] assms
    by (simp add: bv_sync_def Let_def del: set_concat)
  then show ?thesis using assms(2) unfolding all by auto
qed

lemma dve_read_meta_audit_fun: "dve_read_meta_audit w = bv_read_meta_audit w"
  by (rule ext) (rule dve_read_meta_audit_eq)

lemma dve_sync_merges:
  assumes "\<forall>p\<in>set ps. stream_ok w p" "\<forall>p\<in>set ps. path_exists w p" "p \<in> set ps"
  shows "set (dve_read_meta_audit (dve_sync_meta_audit_streams w ps) p)
         = (\<Union>q\<in>set ps. set (dve_read_meta_audit w q))"
proof -
  define all where "all = remdups (concat (map (bv_read_meta_audit w) ps))"
  have all: "set all = (\<Union>q\<in>set ps. set (bv_read_meta_audit w q))"
    unfolding all_def by simp
  have sub: "set (bv_read_meta_audit w p) \<subseteq> set all" using assms(3) unfolding all by blast
  have ps: "ps \<noteq> []" using assms(3) by auto
  have sync: "dve_sync_meta_audit_streams w ps
     = (if all = [] then w else fold (\<lambda>p w'. dve_append_meta_audit w' p (sort all)) ps w)"
    unfolding dve_sync_meta_audit_streams_def dve_read_meta_audit_fun all_def[symmetric] Let_def
    using ps by (simp only: if_False)
  have goal: "set (bv_read_meta_audit (dve_sync_meta_audit_streams w ps) p) = set all"
  proof (cases "all = []")
    case True
    then show ?thesis using sub sync by simp
  next
    case False
    have clean: "\<forall>e\<in>set (sort all). strip e = e \<and> e \<noteq> [] \<and> newline \<notin> set e"
      using bv_read_meta_audit_clean unfolding set_sort all by blast
    have "dve_sync_meta_audit_streams w ps
          = fold (\<lambda>p w'. bv_append_meta_audit w' p (sort all)) ps w"
      using False sync fold_dve_append[OF assms(2), of "sort all"] by simp
    then have "set (bv_read_meta_audit (dve_sync_meta_audit_streams w ps) p)
        = set (bv_read_meta_audit w p) \<union> set (sort all)"
      using append_fold[OF clean assms(1), of p] assms(1,3) by simp
    then show ?thesis using sub by auto
  qed
  show ?thesis unfolding dve_read_meta_audit_fun using goal all by simp
qed

text \<open>
  Claim C4, as the code has it. Let the audit stream of every file of a set be readable
  and writable and hold a terminated text (or be absent). After the merge of
  \<open>BackupViewer.load_backups_from_name\<close> the audit entries of every file of the set,
  as a set, are the union of the audit entries that the files of the set had before.
  The same holds for \<open>DocumentVersionExplorer.sync_meta_audit_streams\<close> when the files
  of the set exist.
\<close>

theorem sync_merges_audit:
  assumes "\<forall>p\<in>set file_paths. stream_ok w p"
  shows "(\<forall>p\<in>set file_paths. set (bv_read_meta_audit (bv_sync w file_paths) p)
            = (\<Union>q\<in>set file_paths. set (bv_read_meta_audit w q)))
       \<and> ((\<forall>p\<in>set file_paths. path_exists w p) \<longrightarrow>
           (\<forall>p\<in>set file_paths. set (dve_read_meta_audit (dve_sync_meta_audit_streams w file_paths) p)
            = (\<Union>q\<in>set file_paths. set (dve_read_meta_audit w q))))"
proof (intro conjI ballI impI)
  fix p assume "p \<in> set file_paths"
  then show "set (bv_read_meta_audit (bv_sync w file_paths) p)
            = (\<Union>q\<in>set file_paths. set (bv_read_meta_audit w q))"
    by (rule bv_sync_merges[OF assms])
next
  fix p assume "\<forall>p\<in>set file_paths. path_exists w p" "p \<in> set file_paths"
  then show "set (dve_read_meta_audit (dve_sync_meta_audit_streams w file_paths) p)
            = (\<Union>q\<in>set file_paths. set (dve_read_meta_audit w q))"
    by (rule dve_sync_merges[OF assms])
qed

theorem sync_merges_audit_witness:
  "set (bv_read_meta_audit (bv_sync w_audit [''a.bak'', ''b.bak'']) ''a.bak'') = {''x'', ''y''}
   \<and> set (bv_read_meta_audit (bv_sync w_audit [''a.bak'', ''b.bak'']) ''b.bak'') = {''x'', ''y''}
   \<and> set (dve_read_meta_audit (dve_sync_meta_audit_streams w_audit [''a.bak'', ''b.bak'']) ''a.bak'') = {''x'', ''y''}
   \<and> set (dve_read_meta_audit (dve_sync_meta_audit_streams w_audit [''a.bak'', ''b.bak'']) ''b.bak'') = {''x'', ''y''}"
proof -
  have ok: "\<forall>p\<in>set [''a.bak'', ''b.bak'']. stream_ok w_audit p"
    by (simp add: stream_ok_def terminated_stream_def terminated_def w_audit_def w_empty_def)
  have ex: "\<forall>p\<in>set [''a.bak'', ''b.bak'']. path_exists w_audit p"
    by (simp add: path_exists_def w_audit_def w_empty_def)
  have r: "bv_read_meta_audit w_audit ''a.bak'' = [''x'']" "bv_read_meta_audit w_audit ''b.bak'' = [''y'']"
    "dve_read_meta_audit w_audit ''a.bak'' = [''x'']" "dve_read_meta_audit w_audit ''b.bak'' = [''y'']"
    by code_simp+
  show ?thesis
    using sync_merges_audit[OF ok] ex by (simp add: r insert_commute)
qed

text \<open>
  Claim C4 as stated fails when an audit stream lacks its final line feed: the entries
  appended to it join its last line, so the file ends with the entry \<open>xy\<close> where the
  union has \<open>x\<close> and \<open>y\<close>.
\<close>

theorem sync_unterminated_counterexample:
  "set (bv_read_meta_audit (bv_sync w_loose [''a.bak'', ''b.bak'']) ''a.bak'')
     \<noteq> set (bv_read_meta_audit w_loose ''a.bak'') \<union> set (bv_read_meta_audit w_loose ''b.bak'')
   \<and> set (dve_read_meta_audit (dve_sync_meta_audit_streams w_loose [''a.bak'', ''b.bak'']) ''a.bak'')
     \<noteq> set (dve_read_meta_audit w_loose ''a.bak'') \<union> set (dve_read_meta_audit w_loose ''b.bak'')"
proof -
  have "bv_read_meta_audit (bv_sync w_loose [''a.bak'', ''b.bak'']) ''a.bak'' = [''xy'']"
    "dve_read_meta_audit (dve_sync_meta_audit_streams w_loose [''a.bak'', ''b.bak'']) ''a.bak'' = [''xy'']"
    "bv_read_meta_audit w_loose ''a.bak'' = [''x'']" "bv_read_meta_audit w_loose ''b.bak'' = [''y'']"
    "dve_read_meta_audit w_loose ''a.bak'' = [''x'']" "dve_read_meta_audit w_loose ''b.bak'' = [''y'']"
    by code_simp+
  then show ?thesis by simp
qed

end
